theory Spec2Isabelle
  imports Main "HOL-Library.AList" "HOL-Library.Multiset"
begin

section \<open>Strings and cells\<close>

text \<open>
  Strings are lists of \<^typ>\<open>char\<close>, read as code points below 256. A spreadsheet cell
  (and a JSON field that may be absent or null) enters the code only through
  \<^verbatim>\<open>v is None\<close> and \<^verbatim>\<open>str(v)\<close>, so a cell is a \<^typ>\<open>string option\<close>:
  \<^const>\<open>None\<close> for Python's None, \<open>Some s\<close> for a value whose \<^verbatim>\<open>str\<close> is \<open>s\<close>.
\<close>

type_synonym cell = "string option"

definition is_space :: "char \<Rightarrow> bool" where
  \<comment> \<open>\<^verbatim>\<open>str.isspace\<close> and the regular expression class \<^verbatim>\<open>\s\<close>, for code points below 256\<close>
  "is_space c = (let n = (of_char c :: nat) in
     (9 \<le> n \<and> n \<le> 13) \<or> (28 \<le> n \<and> n \<le> 32) \<or> n = 133 \<or> n = 160)"

definition is_digit :: "char \<Rightarrow> bool" where
  "is_digit c = (let n = (of_char c :: nat) in 48 \<le> n \<and> n \<le> 57)"

definition digit_val :: "char \<Rightarrow> int" where
  "digit_val c = int (of_char c) - 48"

definition lower_char :: "char \<Rightarrow> char" where
  "lower_char c = (let n = (of_char c :: nat) in
     if (65 \<le> n \<and> n \<le> 90) \<or> (192 \<le> n \<and> n \<le> 222 \<and> n \<noteq> 215)
     then char_of (n + 32) else c)"

definition lower :: "string \<Rightarrow> string" where
  "lower s = map lower_char s"

definition strip :: "string \<Rightarrow> string" where
  "strip s = rev (dropWhile is_space (rev (dropWhile is_space s)))"

fun split_from :: "string \<Rightarrow> string \<Rightarrow> string list" where
  "split_from cur [] = (if cur = [] then [] else [cur])"
| "split_from cur (c # cs) =
     (if is_space c then (if cur = [] then split_from [] cs else cur # split_from [] cs)
      else split_from (cur @ [c]) cs)"

definition split_ws :: "string \<Rightarrow> string list" where
  \<comment> \<open>\<^verbatim>\<open>s.split()\<close>: the maximal runs of non-whitespace\<close>
  "split_ws s = split_from [] s"

fun join_sp :: "string list \<Rightarrow> string" where
  "join_sp [] = []"
| "join_sp [w] = w"
| "join_sp (w # ws) = w @ '' '' @ join_sp ws"

fun contains :: "string \<Rightarrow> string \<Rightarrow> bool" where
  \<comment> \<open>\<^verbatim>\<open>p in s\<close>\<close>
  "contains [] p = (p = [])"
| "contains (c # cs) p = (take (length p) (c # cs) = p \<or> contains cs p)"

definition startswith :: "string \<Rightarrow> string \<Rightarrow> bool" where
  "startswith s p = (take (length p) s = p)"

definition or_else :: "string option \<Rightarrow> string option \<Rightarrow> string option" where
  \<comment> \<open>\<^verbatim>\<open>a or b\<close> on values that are None or a string: None and the empty string are falsy\<close>
  "or_else a b = (case a of None \<Rightarrow> b | Some s \<Rightarrow> if s = [] then b else Some s)"

definition str_or :: "string option \<Rightarrow> string \<Rightarrow> string" where
  \<comment> \<open>\<^verbatim>\<open>a or d\<close> with a string default\<close>
  "str_or a d = (case a of None \<Rightarrow> d | Some s \<Rightarrow> if s = [] then d else s)"

subsection \<open>Integers to text and back\<close>

function str_nat :: "nat \<Rightarrow> string" where
  \<comment> \<open>the decimal digits of a natural number\<close>
  "str_nat n =
     (if n < 10 then [char_of (48 + n)] else str_nat (n div 10) @ [char_of (48 + n mod 10)])"
  by pat_completeness auto
termination
  by (relation "measure (\<lambda>n. n)") auto

declare str_nat.simps [simp del]

definition str_int :: "int \<Rightarrow> string" where
  \<comment> \<open>\<^verbatim>\<open>str(i)\<close> for an int\<close>
  "str_int i = (if i < 0 then CHR ''-'' # str_nat (nat (- i)) else str_nat (nat i))"

fun parse_digits :: "int \<Rightarrow> bool \<Rightarrow> string \<Rightarrow> int option" where
  \<comment> \<open>decimal digits, single underscores allowed between two digits; the flag says that
      the previous character was a digit\<close>
  "parse_digits acc ld [] = (if ld then Some acc else None)"
| "parse_digits acc ld (c # cs) =
     (if is_digit c then parse_digits (10 * acc + digit_val c) True cs
      else if c = CHR ''_'' \<and> ld then parse_digits acc False cs
      else None)"

definition py_int :: "string \<Rightarrow> int option" where
  \<comment> \<open>\<^verbatim>\<open>int(s)\<close> for a string in base 10; None stands for ValueError\<close>
  "py_int s =
     (case strip s of
        [] \<Rightarrow> None
      | c # cs \<Rightarrow>
          if c = CHR ''-'' then map_option uminus (parse_digits 0 False cs)
          else if c = CHR ''+'' then parse_digits 0 False cs
          else parse_digits 0 False (c # cs))"

section \<open>Stage 1: spreadsheet to sheet object (process\_excel\_files.py)\<close>

subsection \<open>Helpers\<close>

definition clean :: "cell \<Rightarrow> string option" where
  "clean s = (case s of None \<Rightarrow> None | Some t \<Rightarrow> Some (join_sp (split_ws (strip t))))"

definition FILETYPE_NORMALIZE :: "(string \<times> string) list" where
  "FILETYPE_NORMALIZE =
     [(''audio'', ''Audio Bar''),
      (''audio bar'', ''Audio Bar''),
      (''embedded mp4'', ''Embedded MP4''),
      (''embedded  mp4'', ''Embedded MP4''),
      (''mp4'', ''Embedded MP4''),
      (''video'', ''Embedded MP4''),
      (''embedded mp3'', ''Embedded MP3''),
      (''mp3'', ''Embedded MP3'')]"

definition norm_filetype :: "cell \<Rightarrow> string" where
  "norm_filetype raw =
     (case raw of
        None \<Rightarrow> ''Audio Bar''
      | Some r \<Rightarrow>
          if strip r = [] then ''Audio Bar''
          else (case map_of FILETYPE_NORMALIZE (join_sp (split_ws (lower (strip r)))) of
                  Some v \<Rightarrow> v
                | None \<Rightarrow> strip r))"

subsection \<open>Header mapping\<close>

definition re_audio_hash :: "string \<Rightarrow> bool" where
  \<comment> \<open>\<^verbatim>\<open>re.fullmatch(r"audio\s*#", text)\<close>\<close>
  "re_audio_hash t = (take 5 t = ''audio'' \<and> dropWhile is_space (drop 5 t) = ''#'')"

definition re_hash_audios :: "string \<Rightarrow> bool" where
  \<comment> \<open>\<^verbatim>\<open>re.fullmatch(r"#\s*audios", text)\<close>\<close>
  "re_hash_audios t = (take 1 t = ''#'' \<and> dropWhile is_space (drop 1 t) = ''audios'')"

definition re_slides :: "string \<Rightarrow> bool" where
  \<comment> \<open>\<^verbatim>\<open>re.fullmatch(r"(#\s*)?slides?", text)\<close>\<close>
  "re_slides t =
     (let r = (if take 1 t = ''#'' then dropWhile is_space (drop 1 t) else t)
      in r = ''slide'' \<or> r = ''slides'')"

definition map_header :: "cell \<Rightarrow> string option" where
  "map_header raw =
     (case raw of
        None \<Rightarrow> None
      | Some r \<Rightarrow>
          (let text = lower (strip r) in
           if re_audio_hash text then None
           else if re_hash_audios text \<or> text = ''audios'' then None
           else if re_slides text then Some ''slide_number''
           else if text \<in> set [''slide number'', ''slidenumber'', ''slide''] then Some ''slide_number''
           else if text \<in> set [''lesson#'', ''lesson''] then Some ''lesson''
           else if contains text ''block'' \<and> contains text ''section'' then Some ''section''
           else if contains text ''assignable'' \<and> contains text ''unit'' then Some ''title''
           else if text \<in> set [''script'', ''transcription'', ''audio''] then Some ''transcription''
           else if contains text ''file location'' \<and> contains text ''html'' then Some ''file_type''
           else if text \<in> set [''file type'', ''filetype'', ''file_type''] then Some ''file_type''
           else if startswith text ''notes'' then Some ''notes''
           else if text \<in> set [''occurrence'', ''occurence'', ''slide title'', ''slidetitle'',
                               ''link to dev'', ''linktodev''] then None
           else None))"

subsection \<open>Rows and the aggregation state\<close>

text \<open>
  A data row as the loop body reads it through \<^verbatim>\<open>get(colname)\<close>: the six cells of
  the mapped columns, \<^const>\<open>None\<close> for an empty cell and for a column the header
  does not have.
\<close>

record row =
  r_slide :: cell
  r_section :: cell
  r_title :: cell
  r_transcript :: cell
  r_notes :: cell
  r_ftype :: cell

record audio_item =
  filename :: string
  file_type :: string
  transcription :: "string option"
  item_notes :: "string option"

record slide =
  slide_number :: int
  lesson :: string
  slide_section :: "string option"
  slide_title :: "string option"
  audio :: "audio_item list"
  audio_total :: "nat option"

text \<open>
  The two dictionaries are association lists in insertion order; \<^const>\<open>audio_total\<close> is
  \<^const>\<open>None\<close> while the key is not yet set.
\<close>

record agg_state =
  last_slide :: "int option"
  last_section :: "string option"
  last_title :: "string option"
  audio_counts :: "(int \<times> nat) list"
  slides_by_num :: "(int \<times> slide) list"

definition init_state :: agg_state where
  "init_state = \<lparr>last_slide = None, last_section = None, last_title = None,
                  audio_counts = [], slides_by_num = []\<rparr>"

definition setdefault :: "int \<Rightarrow> nat \<Rightarrow> (int \<times> nat) list \<Rightarrow> (int \<times> nat) list" where
  "setdefault k v d = (case map_of d k of None \<Rightarrow> d @ [(k, v)] | Some _ \<Rightarrow> d)"

definition count_get :: "('k \<times> nat) list \<Rightarrow> 'k \<Rightarrow> nat" where
  \<comment> \<open>\<^verbatim>\<open>d.get(k, 0)\<close> on a dictionary of counters\<close>
  "count_get d k = (case map_of d k of None \<Rightarrow> 0 | Some c \<Rightarrow> c)"

definition is_blank :: "cell \<Rightarrow> bool" where
  \<comment> \<open>\<^verbatim>\<open>v is None or str(v).strip() == ""\<close>\<close>
  "is_blank v = (case v of None \<Rightarrow> True | Some s \<Rightarrow> strip s = [])"

definition slide_stage :: "agg_state \<Rightarrow> cell \<Rightarrow> (int option \<times> agg_state) option" where
  \<comment> \<open>the first \<^verbatim>\<open>if\<close> of the loop body: the slide number the row resolves to and the
      updated state; \<^const>\<open>None\<close> is the \<^verbatim>\<open>continue\<close> of the \<^verbatim>\<open>except\<close> branch\<close>
  "slide_stage st v =
     (case v of
        None \<Rightarrow> Some (last_slide st, st)
      | Some s \<Rightarrow>
          if strip s = [] then Some (last_slide st, st)
          else (case py_int (strip s) of
                  None \<Rightarrow> None
                | Some n \<Rightarrow>
                    Some (Some n, st\<lparr>last_slide := Some n,
                                     audio_counts := setdefault n 0 (audio_counts st)\<rparr>)))"

definition make_filename :: "string \<Rightarrow> int \<Rightarrow> nat \<Rightarrow> string" where
  \<comment> \<open>\<^verbatim>\<open>f"{base}_{slide}_{a_idx}"\<close>\<close>
  "make_filename base n a_idx = base @ ''_'' @ str_int n @ ''_'' @ str_nat a_idx"

definition has_content :: "row \<Rightarrow> bool" where
  "has_content r = (\<not> (r_transcript r = None \<and> r_notes r = None \<and> is_blank (r_ftype r)))"

definition make_item :: "string \<Rightarrow> int \<Rightarrow> nat \<Rightarrow> row \<Rightarrow> audio_item" where
  "make_item base n a_idx r =
     \<lparr>filename = make_filename base n a_idx,
      file_type = norm_filetype (r_ftype r),
      transcription = clean (r_transcript r),
      item_notes = or_else (clean (r_notes r)) None\<rparr>"

definition add_audio :: "audio_item \<Rightarrow> slide \<Rightarrow> slide" where
  "add_audio a s = s\<lparr>audio := audio s @ [a]\<rparr>"

definition row_stage :: "string \<Rightarrow> int \<Rightarrow> agg_state \<Rightarrow> int \<Rightarrow> row \<Rightarrow> agg_state" where
  \<comment> \<open>the loop body once the row has resolved to slide number \<open>n\<close>\<close>
  "row_stage base lesson_num st n r =
     (let sec = or_else (clean (r_section r)) (last_section st);
          tit = or_else (clean (r_title r)) (last_title st);
          st1 = st\<lparr>last_section := sec, last_title := tit\<rparr>
      in if \<not> has_content r then st1
         else
           let slides = (case map_of (slides_by_num st1) n of
                           Some _ \<Rightarrow> slides_by_num st1
                         | None \<Rightarrow> slides_by_num st1 @
                             [(n, \<lparr>slide_number = n,
                                   lesson = ''Lesson '' @ str_int lesson_num,
                                   slide_section = sec, slide_title = tit, audio = [],
                                   audio_total = None\<rparr>)]);
               a_idx = count_get (audio_counts st1) n + 1
           in st1\<lparr>audio_counts := AList.update n a_idx (audio_counts st1),
                  slides_by_num := AList.map_entry n (add_audio (make_item base n a_idx r)) slides\<rparr>)"

definition step :: "string \<Rightarrow> int \<Rightarrow> agg_state \<Rightarrow> row \<Rightarrow> agg_state" where
  \<comment> \<open>one iteration of the row loop\<close>
  "step base lesson_num st r =
     (case slide_stage st (r_slide r) of
        None \<Rightarrow> st
      | Some (None, st1) \<Rightarrow> st1
      | Some (Some n, st1) \<Rightarrow> row_stage base lesson_num st1 n r)"

definition aggregate :: "string \<Rightarrow> int \<Rightarrow> row list \<Rightarrow> agg_state" where
  "aggregate base lesson_num rows = foldl (step base lesson_num) init_state rows"

subsection \<open>Slides, table of contents and the sheet object\<close>

fun total_loop :: "slide list \<Rightarrow> slide list \<times> nat \<Rightarrow> slide list \<times> nat" where
  \<comment> \<open>the loop that sets \<^verbatim>\<open>audio_total\<close> and sums it\<close>
  "total_loop [] acc = acc"
| "total_loop (s # ss) (out, tot) =
     (let s' = s\<lparr>audio_total := Some (length (audio s))\<rparr>
      in total_loop ss (out @ [s'], tot + length (audio s)))"

datatype pyval = PyNone | PyInt int | PyStr string

record toc_entry =
  toc_slide_number :: pyval
  toc_section :: "string option"
  toc_title :: "string option"

definition strip_slide_label :: "string \<Rightarrow> string" where
  \<comment> \<open>\<^verbatim>\<open>re.sub(r"^Slide\s*\d+\s*:\s*", "", t, flags=re.IGNORECASE)\<close>\<close>
  "strip_slide_label t =
     (if lower (take 5 t) = ''slide'' then
        (let r1 = dropWhile is_space (drop 5 t);
             r2 = dropWhile is_space (dropWhile is_digit r1)
         in if takeWhile is_digit r1 \<noteq> [] \<and> take 1 r2 = '':''
            then dropWhile is_space (drop 1 r2) else t)
      else t)"

definition toc_of :: "slide \<Rightarrow> toc_entry" where
  "toc_of s =
     (let t = (case slide_title s of None \<Rightarrow> [] | Some x \<Rightarrow> x);
          short_title = strip (strip_slide_label t)
      in \<lparr>toc_slide_number = PyInt (slide_number s),
          toc_section = slide_section s,
          toc_title = Some (if short_title = [] then t else short_title)\<rparr>)"

record sheet_obj =
  sheet_name :: string
  base :: string
  level :: int
  unit :: int
  lesson_num :: int
  toc :: "toc_entry list"
  slides :: "slide list"
  totals_slides :: nat
  totals_audio_items :: nat
  xcode :: "string option"

definition compile_sheet ::
  "(string \<times> string) list \<Rightarrow> string \<Rightarrow> string \<Rightarrow> int \<Rightarrow> int \<Rightarrow> int \<Rightarrow> row list \<Rightarrow> sheet_obj" where
  \<comment> \<open>the body of the worksheet loop of \<^verbatim>\<open>excel_to_json_grouped\<close> after the sheet title
      has been parsed into \<open>(b, lv, un, ln)\<close> and the header has been mapped; \<open>codes\<close> is
      the code table keyed by base\<close>
  "compile_sheet codes ws_title b lv un ln rows =
     (let st = aggregate b ln rows;
          (sl, total_audio) =
             total_loop (sort_key slide_number (map snd (slides_by_num st))) ([], 0)
      in \<lparr>sheet_name = ws_title, base = b, level = lv, unit = un, lesson_num = ln,
          toc = map toc_of sl, slides = sl,
          totals_slides = length sl, totals_audio_items = total_audio,
          xcode = map_of codes b\<rparr>)"

section \<open>Stage 2: sheet object to course structure (workbook\_to\_xml.py)\<close>

subsection \<open>Utilities\<close>

definition is_slug_char :: "char \<Rightarrow> bool" where
  \<comment> \<open>the class \<^verbatim>\<open>[a-z0-9]\<close>\<close>
  "is_slug_char c = (let n = (of_char c :: nat) in (97 \<le> n \<and> n \<le> 122) \<or> (48 \<le> n \<and> n \<le> 57))"

fun squash :: "bool \<Rightarrow> string \<Rightarrow> string" where
  \<comment> \<open>\<^verbatim>\<open>re.sub(r"[^a-z0-9]+", "_", s)\<close>; the flag says that a run has been replaced already\<close>
  "squash inrun [] = []"
| "squash inrun (c # cs) =
     (if is_slug_char c then c # squash False cs
      else if inrun then squash True cs
      else CHR ''_'' # squash True cs)"

definition strip_underscores :: "string \<Rightarrow> string" where
  "strip_underscores s =
     rev (dropWhile (\<lambda>c. c = CHR ''_'') (rev (dropWhile (\<lambda>c. c = CHR ''_'') s)))"

definition slugify :: "string option \<Rightarrow> string" where
  \<comment> \<open>the two typographic quotes of the first pattern are code points above 255\<close>
  "slugify s =
     (let s0 = lower (strip (str_or s []));
          s1 = filter (\<lambda>c. c \<noteq> CHR 0x22 \<and> c \<noteq> CHR 0x27) s0;
          s2 = strip_underscores (squash False s1)
      in if s2 = [] then ''section'' else s2)"

definition canonical_block_title :: "string option \<Rightarrow> string" where
  "canonical_block_title sec =
     (let low = lower (strip (str_or sec [])) in
      if low \<in> set [''unit intro'', ''intro'', ''lesson opener''] then ''Lesson Opener''
      else if contains low ''warm-up'' \<or> contains low ''warm up''
              \<or> contains low ''review and repetition'' then ''Warm-up Review and Repetition''
      else if contains low ''multimodal mini'' then ''Multimodal Minilesson''
      else if contains low ''vocabulary booster'' then ''Vocabulary Booster''
      else if contains low ''apply to reading and writing'' then ''Apply to Reading and Writing''
      else if contains low ''additional supports'' then ''Additional Supports''
      else str_or sec ''Lesson'')"

definition py_str :: "pyval \<Rightarrow> string" where
  "py_str v = (case v of PyNone \<Rightarrow> ''None'' | PyInt i \<Rightarrow> str_int i | PyStr x \<Rightarrow> x)"

text \<open>
  \<^verbatim>\<open>_to_int(v, default)\<close> tries \<^verbatim>\<open>int(str(v))\<close>, then \<^verbatim>\<open>int(float(str(v)))\<close>. Floating
  point is outside this embedding, so the second conversion is a parameter \<open>fl\<close> of the
  model (\<^const>\<open>None\<close> where it raises) and every result below holds for any such function.
  \<open>to_int fl v\<close> is \<^verbatim>\<open>_to_int(v, None)\<close> and \<open>to_int0 fl v\<close> is \<^verbatim>\<open>_to_int(v, 0)\<close>.
\<close>

type_synonym float_conv = "string \<Rightarrow> int option"

definition to_int :: "float_conv \<Rightarrow> pyval \<Rightarrow> int option" where
  "to_int fl v =
     (case py_int (py_str v) of
        Some n \<Rightarrow> Some n
      | None \<Rightarrow> fl (py_str v))"

definition to_int0 :: "float_conv \<Rightarrow> pyval \<Rightarrow> int" where
  "to_int0 fl v = (case to_int fl v of Some n \<Rightarrow> n | None \<Rightarrow> 0)"

definition no_float :: float_conv where
  \<comment> \<open>an instance for the examples: on a string without a digit \<^verbatim>\<open>int(float(s))\<close> always
      raises, and the examples reach the float conversion on such strings only\<close>
  "no_float s = None"

subsection \<open>The document\<close>

text \<open>
  The course structure as far as it depends on the table of contents: the course
  identifier and the sequence of blocks with their assignable units. The player
  configuration and the additional resources are constant text around it.
\<close>

record au =
  au_id :: string
  au_title :: string
  au_url :: string
  au_teacherResource :: "string option"
  au_skill :: "string option"

record block =
  block_id :: string
  block_title :: string
  block_aus :: "au list"

record course_doc =
  course_id :: string
  blocks :: "block list"

text \<open>
  The sheet dictionary as the builder reads it: \<open>d_sheet_name\<close>, \<open>d_base\<close> are
  \<^verbatim>\<open>str(sheet.get(k, ""))\<close>, \<open>d_xcode\<close> and \<open>d_code\<close> are \<^verbatim>\<open>sheet.get(k)\<close>, \<open>d_lesson_num\<close> is
  \<^verbatim>\<open>sheet.get("lesson_num", 0)\<close> and \<open>d_toc\<close> is \<^verbatim>\<open>sheet.get("toc", [])\<close>.
\<close>

record sheet_dict =
  d_sheet_name :: string
  d_base :: string
  d_xcode :: "string option"
  d_code :: "string option"
  d_lesson_num :: pyval
  d_toc :: "toc_entry list"

subsection \<open>Grouping and the slide index\<close>

fun group_add :: "string \<Rightarrow> toc_entry \<Rightarrow> (string \<times> toc_entry list) list \<Rightarrow> (string \<times> toc_entry list) list" where
  \<comment> \<open>\<^verbatim>\<open>grouped.setdefault(k, []).append(item)\<close> on an ordered dictionary\<close>
  "group_add k item [] = [(k, [item])]"
| "group_add k item ((k', items) # g) =
     (if k' = k then (k', items @ [item]) # g else (k', items) # group_add k item g)"

definition group_toc :: "toc_entry list \<Rightarrow> (string \<times> toc_entry list) list" where
  "group_toc t = foldl (\<lambda>g item. group_add (canonical_block_title (toc_section item)) item g) [] t"

fun scan_toc ::
  "float_conv \<Rightarrow> toc_entry list \<Rightarrow> (int \<times> string option) list \<times> int list
     \<Rightarrow> (int \<times> string option) list \<times> int list" where
  \<comment> \<open>the loop that fills \<^verbatim>\<open>title_by_slide\<close> and \<^verbatim>\<open>slide_numbers\<close>\<close>
  "scan_toc fl [] acc = acc"
| "scan_toc fl (t # ts) (title_by_slide, slide_numbers) =
     (case to_int fl (toc_slide_number t) of
        None \<Rightarrow> scan_toc fl ts (title_by_slide, slide_numbers)
      | Some sn \<Rightarrow>
          scan_toc fl ts (AList.update sn (toc_title t) title_by_slide, slide_numbers @ [sn]))"

definition title_or :: "(int \<times> string option) list \<Rightarrow> int \<Rightarrow> string \<Rightarrow> string" where
  \<comment> \<open>\<^verbatim>\<open>title_by_slide.get(sn) or d\<close>\<close>
  "title_or title_by_slide sn d =
     (case map_of title_by_slide sn of
        None \<Rightarrow> d
      | Some t \<Rightarrow> str_or t d)"

subsection \<open>Blocks\<close>

definition lesson_url :: "int \<Rightarrow> string" where
  "lesson_url sn = ''contents/lesson/'' @ str_int sn @ ''.html''"

definition support_url :: "int \<Rightarrow> string" where
  "support_url sn = ''contents/teacherResources/support_'' @ str_int sn @ ''.html''"

definition site :: string where
  "site = ''http://benchmarkuniverse.com/''"

definition opener_au ::
  "float_conv \<Rightarrow> string \<Rightarrow> string \<Rightarrow> (int \<times> string option) list \<Rightarrow> toc_entry \<Rightarrow> au" where
  "opener_au fl xc ph_skill title_by_slide it =
     (let sn = to_int0 fl (toc_slide_number it) in
      \<lparr>au_id = site @ xc @ ''/block/lesson_opener_lesson'',
       au_title = title_or title_by_slide sn ''Lesson Opener'',
       au_url = lesson_url sn,
       au_teacherResource = Some (support_url sn),
       au_skill = Some ph_skill\<rparr>)"

definition opener_block ::
  "float_conv \<Rightarrow> string \<Rightarrow> string \<Rightarrow> (int \<times> string option) list \<Rightarrow> string \<Rightarrow> toc_entry list \<Rightarrow> block" where
  "opener_block fl xc ph_skill title_by_slide bt items =
     \<lparr>block_id = site @ xc @ ''/block/lesson_opener_block'',
      block_title = bt,
      block_aus = map (opener_au fl xc ph_skill title_by_slide)
                      (sort_key (\<lambda>x. to_int0 fl (toc_slide_number x)) items)\<rparr>"

definition rsplit_head :: "string \<Rightarrow> string" where
  \<comment> \<open>\<^verbatim>\<open>s.rsplit('/', 1)[0]\<close>\<close>
  "rsplit_head s =
     (if CHR ''/'' \<in> set s then rev (tl (dropWhile (\<lambda>c. c \<noteq> CHR ''/'') (rev s))) else s)"

fun au_loop ::
  "float_conv \<Rightarrow> string \<Rightarrow> (int \<times> string option) list \<Rightarrow> string \<Rightarrow> toc_entry list
     \<Rightarrow> (string \<times> nat) list \<Rightarrow> au list" where
  \<comment> \<open>the units of a standard block; \<open>seen\<close> counts the slugs used so far\<close>
  "au_loop fl ph_skill title_by_slide bid [] seen = []"
| "au_loop fl ph_skill title_by_slide bid (it # its) seen =
     (let sn = to_int0 fl (toc_slide_number it);
          a_title = title_or title_by_slide sn (''Slide '' @ str_int sn);
          key = slugify (Some a_title);
          n = count_get seen key + 1;
          seen' = AList.update key n seen;
          au_slug = (if n = 1 then key else key @ ''_'' @ str_nat n)
      in \<lparr>au_id = rsplit_head bid @ ''/'' @ au_slug,
          au_title = a_title,
          au_url = lesson_url sn,
          au_teacherResource = Some (support_url sn),
          au_skill = Some ph_skill\<rparr>
         # au_loop fl ph_skill title_by_slide bid its seen')"

definition standard_block ::
  "float_conv \<Rightarrow> string \<Rightarrow> string \<Rightarrow> int \<Rightarrow> (int \<times> string option) list \<Rightarrow> int \<Rightarrow> string
     \<Rightarrow> toc_entry list \<Rightarrow> block" where
  "standard_block fl xc ph_skill lesson_n title_by_slide block_index bt items =
     (let slug = slugify (case items of [] \<Rightarrow> Some bt | it # _ \<Rightarrow> toc_section it);
          bid = site @ xc @ ''/block'' @ str_int block_index @ ''/lesson_'' @ str_int lesson_n
                  @ ''/'' @ slug
      in \<lparr>block_id = bid,
          block_title = bt,
          block_aus = au_loop fl ph_skill title_by_slide bid
                        (sort_key (\<lambda>x. to_int0 fl (toc_slide_number x)) items) []\<rparr>)"

fun block_loop ::
  "float_conv \<Rightarrow> string \<Rightarrow> string \<Rightarrow> int \<Rightarrow> (int \<times> string option) list
     \<Rightarrow> (string \<times> toc_entry list) list \<Rightarrow> int \<times> block list \<Rightarrow> int \<times> block list" where
  \<comment> \<open>the loop over the groups; the state is \<^verbatim>\<open>block_index\<close> and the blocks appended
      to the root so far\<close>
  "block_loop fl xc ph_skill lesson_n title_by_slide [] st = st"
| "block_loop fl xc ph_skill lesson_n title_by_slide ((bt, items) # rest) (block_index, root) =
     (if bt = ''Lesson Opener'' then
        block_loop fl xc ph_skill lesson_n title_by_slide rest
          (block_index, root @ [opener_block fl xc ph_skill title_by_slide bt items])
      else if bt = ''Additional Supports'' then
        block_loop fl xc ph_skill lesson_n title_by_slide rest (block_index, root)
      else
        block_loop fl xc ph_skill lesson_n title_by_slide rest
          (block_index + 1,
           root @ [standard_block fl xc ph_skill lesson_n title_by_slide (block_index + 1) bt items]))"

definition supports_block :: "string \<Rightarrow> int \<Rightarrow> int \<Rightarrow> int \<Rightarrow> block" where
  \<comment> \<open>the block appended after the loop\<close>
  "supports_block xc lesson_n block_index last_slide_num =
     \<lparr>block_id = site @ xc @ ''/block'' @ str_int block_index @ ''/lesson_'' @ str_int lesson_n
                   @ ''/additional_supports'',
      block_title = ''Additional Supports'',
      block_aus =
        [\<lparr>au_id = site @ xc @ ''/block'' @ str_int block_index @ ''/lesson_'' @ str_int lesson_n
                    @ ''/additionalsupports_0'',
          au_title = ''Additional Supports'',
          au_url = lesson_url (last_slide_num + 1),
          au_teacherResource = None,
          au_skill = None\<rparr>]\<rparr>"

definition build_xml_for_sheet ::
  "float_conv \<Rightarrow> sheet_dict \<Rightarrow> string option \<Rightarrow> course_doc option \<times> string" where
  \<comment> \<open>the document, or \<^const>\<open>None\<close> when the sheet is skipped, and the file name stem\<close>
  "build_xml_for_sheet fl sheet xcode_arg =
     (let sname = str_or (Some (strip (d_sheet_name sheet))) ''Sheet'';
          stem = str_or (Some (strip (d_base sheet))) (slugify (Some sname));
          xc = strip (str_or xcode_arg (str_or (d_xcode sheet) (str_or (d_code sheet) ''XCODE'')));
          lesson_n = to_int0 fl (d_lesson_num sheet);
          ph_skill = sname @ '':skill''
      in if d_toc sheet = [] then (None, stem)
         else
           let grouped = group_toc (d_toc sheet);
               (title_by_slide, slide_numbers) = scan_toc fl (d_toc sheet) ([], [])
           in if slide_numbers = [] then (None, stem)
              else
                let last_slide_num = Max (set slide_numbers);
                    (block_index, root) =
                       block_loop fl xc ph_skill lesson_n title_by_slide grouped (- 1, [])
                in (Some \<lparr>course_id = site @ xc,
                          blocks = root @ [supports_block xc lesson_n (block_index + 1) last_slide_num]\<rparr>,
                    stem))"

section \<open>Definitions used in the statements\<close>

text \<open>
  The invariant of the row loop, the notions of the specification that the statements
  compare the code with, and small constructors for the example inputs.
\<close>

definition agg_inv :: "string \<Rightarrow> agg_state \<Rightarrow> bool" where
  \<comment> \<open>the invariant of the row loop: keys are distinct, a slide sits under its own number,
      its file names count up from 1, and its counter is the length of its audio list\<close>
  "agg_inv b st \<longleftrightarrow>
     distinct (map fst (slides_by_num st)) \<and>
     (\<forall>n s. map_of (slides_by_num st) n = Some s \<longrightarrow>
        slide_number s = n \<and>
        map filename (audio s) = map (make_filename b n) [1..<Suc (length (audio s))] \<and>
        count_get (audio_counts st) n = length (audio s)) \<and>
     (\<forall>n. map_of (slides_by_num st) n = None \<longrightarrow> count_get (audio_counts st) n = 0)"

definition slide_cell_int :: "cell \<Rightarrow> int option" where
  \<comment> \<open>the number in a slide cell that is non-blank and parses\<close>
  "slide_cell_int v =
     (case v of None \<Rightarrow> None | Some s \<Rightarrow> if strip s = [] then None else py_int (strip s))"

fun last_some :: "'a option list \<Rightarrow> 'a option" where
  \<comment> \<open>the most recent value that is there\<close>
  "last_some [] = None"
| "last_some (x # xs) = (case last_some xs of Some y \<Rightarrow> Some y | None \<Rightarrow> x)"

definition recent_slide :: "row list \<Rightarrow> int option" where
  \<comment> \<open>the slide number of the most recent row with a non-blank parseable slide cell\<close>
  "recent_slide rows = last_some (map (\<lambda>r. slide_cell_int (r_slide r)) rows)"

fun resolving :: "bool \<Rightarrow> row list \<Rightarrow> row list" where
  \<comment> \<open>the rows that resolve to a slide number: the slide cell parses, or it is blank and a
      slide number has been seen (the flag)\<close>
  "resolving seen [] = []"
| "resolving seen (r # rs) =
     (if is_blank (r_slide r) then (if seen then r # resolving seen rs else resolving seen rs)
      else if slide_cell_int (r_slide r) = None then resolving seen rs
      else r # resolving True rs)"

definition carried :: "(row \<Rightarrow> cell) \<Rightarrow> row list \<Rightarrow> string option" where
  \<comment> \<open>the most recent non-blank value of a column, cleaned\<close>
  "carried col rows = last_some (map (\<lambda>r. or_else (clean (col r)) None) rows)"

definition row_of :: "cell \<Rightarrow> cell \<Rightarrow> cell \<Rightarrow> cell \<Rightarrow> row" where
  \<comment> \<open>a row with slide, section, title and transcription cells, no notes and no file type\<close>
  "row_of sl sec tit tr =
     \<lparr>r_slide = sl, r_section = sec, r_title = tit, r_transcript = tr, r_notes = None, r_ftype = None\<rparr>"

definition ex_pre :: "row list" where
  "ex_pre = [row_of (Some ''1'') (Some ''Intro'') (Some ''Hello'') None]"

definition ex_cont :: row where
  "ex_cont = row_of None None None (Some ''Welcome'')"

definition entry_block :: "toc_entry \<Rightarrow> string" where
  \<comment> \<open>the canonical block title an entry's section classifies as\<close>
  "entry_block e = canonical_block_title (toc_section e)"

definition slide_key :: "float_conv \<Rightarrow> toc_entry \<Rightarrow> int" where
  \<comment> \<open>the sort key of an entry, which is also the slide number in its url\<close>
  "slide_key fl e = to_int0 fl (toc_slide_number e)"

definition parsed_slide_numbers :: "float_conv \<Rightarrow> toc_entry list \<Rightarrow> int list" where
  \<comment> \<open>the slide numbers of the toc that parse, in toc order\<close>
  "parsed_slide_numbers fl t = List.map_filter (\<lambda>e. to_int fl (toc_slide_number e)) t"

definition first_seen :: "'a list \<Rightarrow> 'a list" where
  \<comment> \<open>the distinct elements in the order of their first occurrence\<close>
  "first_seen xs = rev (remdups (rev xs))"

definition block_view :: "block \<Rightarrow> string \<times> string list" where
  \<comment> \<open>a block's title and the urls of its units\<close>
  "block_view b = (block_title b, map au_url (block_aus b))"

definition group_view :: "float_conv \<Rightarrow> string \<times> toc_entry list \<Rightarrow> string \<times> string list" where
  \<comment> \<open>the same view of a group: its title and the urls of its entries in ascending order\<close>
  "group_view fl g = (fst g, map (\<lambda>e. lesson_url (slide_key fl e)) (sort_key (slide_key fl) (snd g)))"

definition unit_ids :: "course_doc \<Rightarrow> string list" where
  \<comment> \<open>the identifiers of all units of a document, in document order\<close>
  "unit_ids doc = map au_id (concat (map block_aus (blocks doc)))"

definition entry_of :: "pyval \<Rightarrow> string \<Rightarrow> string \<Rightarrow> toc_entry" where
  "entry_of sn sec tit = \<lparr>toc_slide_number = sn, toc_section = Some sec, toc_title = Some tit\<rparr>"

definition sheet_of :: "toc_entry list \<Rightarrow> sheet_dict" where
  "sheet_of t = \<lparr>d_sheet_name = ''L1 U1 Lesson 2'', d_base = ''level_1_unit_1_lesson_2'',
                 d_xcode = Some ''X1'', d_code = None, d_lesson_num = PyInt 2, d_toc = t\<rparr>"

definition ex_toc :: "toc_entry list" where
  "ex_toc = [entry_of (PyInt 1) ''Warm-up'' ''Review'',
             entry_of (PyInt 2) ''Intro'' ''Welcome'',
             entry_of (PyStr ''n/a'') ''Warm-up'' ''Extra'',
             entry_of (PyInt 3) ''Additional Supports'' ''More'']"

section \<open>Numbers as text\<close>

text \<open>
  Reading back the decimal text of an integer gives the integer, so a slide number that is
  an int always parses, whatever the float conversion does.
\<close>

lemma of_char_digit: "n < 10 \<Longrightarrow> of_char (char_of (48 + n)) = (48 + n :: nat)"
  by simp

lemma is_digit_char: "n < 10 \<Longrightarrow> is_digit (char_of (48 + n :: nat))"
  by (simp add: is_digit_def)

lemma digit_val_char: "n < 10 \<Longrightarrow> digit_val (char_of (48 + n :: nat)) = int n"
  by (simp add: digit_val_def)

lemma parse_digits_str_nat:
  "parse_digits acc ld (str_nat n @ rest) =
     parse_digits (acc * 10 ^ length (str_nat n) + int n) True rest"
proof (induction n arbitrary: acc ld rest rule: str_nat.induct)
  case (1 n)
  show ?case
  proof (cases "n < 10")
    case True
    then show ?thesis
      by (simp add: str_nat.simps[of n] is_digit_char digit_val_char mult.commute)
  next
    case False
    have d: "n mod 10 < 10" by simp
    have s: "str_nat n = str_nat (n div 10) @ [char_of (48 + n mod 10)]"
      using False by (simp add: str_nat.simps[of n])
    have "parse_digits acc ld (str_nat n @ rest)
        = parse_digits acc ld (str_nat (n div 10) @ (char_of (48 + n mod 10) # rest))"
      by (simp add: s)
    also have "\<dots> = parse_digits (acc * 10 ^ length (str_nat (n div 10)) + int (n div 10)) True
                         (char_of (48 + n mod 10) # rest)"
      using False by (rule "1.IH")
    also have "\<dots> = parse_digits (10 * (acc * 10 ^ length (str_nat (n div 10)) + int (n div 10))
                                     + int (n mod 10)) True rest"
      by (simp add: is_digit_char[OF d] digit_val_char[OF d])
    also have "10 * (acc * 10 ^ length (str_nat (n div 10)) + int (n div 10)) + int (n mod 10)
               = acc * 10 ^ length (str_nat n) + int n"
    proof -
      have "int n = 10 * int (n div 10) + int (n mod 10)"
        by (metis mult_div_mod_eq of_nat_add of_nat_mult of_nat_numeral)
      then show ?thesis by (simp add: s algebra_simps)
    qed
    finally show ?thesis .
  qed
qed

lemma str_nat_digits: "c \<in> set (str_nat n) \<Longrightarrow> is_digit c"
proof (induction n rule: str_nat.induct)
  case (1 n)
  show ?case
  proof (cases "n < 10")
    case True
    with "1.prems" show ?thesis by (simp add: str_nat.simps[of n] is_digit_char)
  next
    case False
    have d: "n mod 10 < 10" by simp
    from False "1.prems" "1.IH" show ?thesis
      using is_digit_char[OF d] by (auto simp: str_nat.simps[of n])
  qed
qed

lemma str_nat_nonempty: "str_nat n \<noteq> []"
  by (subst str_nat.simps) simp

lemma digit_not_space: "is_digit c \<Longrightarrow> \<not> is_space c"
  by (auto simp: is_digit_def is_space_def Let_def)

lemma strip_id: "s \<noteq> [] \<Longrightarrow> \<not> is_space (hd s) \<Longrightarrow> \<not> is_space (last s) \<Longrightarrow> strip s = s"
proof -
  assume a: "s \<noteq> []" "\<not> is_space (hd s)" "\<not> is_space (last s)"
  then have 1: "dropWhile is_space s = s" by (cases s) auto
  have "rev s \<noteq> []" "\<not> is_space (hd (rev s))" using a by (simp_all add: hd_rev)
  then have 2: "dropWhile is_space (rev s) = rev s" by (cases "rev s") auto
  show ?thesis by (simp add: strip_def 1 2)
qed

lemma py_int_str_int: "py_int (str_int n) = Some n"
proof -
  obtain c cs where m: "str_nat (nat \<bar>n\<bar>) = c # cs"
    using str_nat_nonempty by (cases "str_nat (nat \<bar>n\<bar>)") auto
  have dig: "\<And>x. x \<in> set (c # cs) \<Longrightarrow> is_digit x"
    using str_nat_digits[of _ "nat \<bar>n\<bar>"] by (simp add: m)
  have cdig: "is_digit c" using dig by simp
  have lastdig: "is_digit (last (c # cs))" using dig[OF last_in_set] by simp
  have val: "parse_digits 0 False (c # cs) = Some (int (nat \<bar>n\<bar>))"
    using parse_digits_str_nat[of 0 False "nat \<bar>n\<bar>" "[]"] by (simp add: m)
  have cne: "c \<noteq> CHR ''-''" "c \<noteq> CHR ''+''"
    using cdig by (auto simp: is_digit_def)
  have minus_ns: "\<not> is_space (CHR ''-'')" by (simp add: is_space_def)
  show ?thesis
  proof (cases "n < 0")
    case True
    then have s: "str_int n = CHR ''-'' # c # cs" by (simp add: str_int_def m[symmetric])
    have "strip (CHR ''-'' # c # cs) = CHR ''-'' # c # cs"
      using lastdig minus_ns by (intro strip_id) (simp_all add: digit_not_space)
    then show ?thesis using True val by (simp add: py_int_def s)
  next
    case False
    then have s: "str_int n = c # cs" by (simp add: str_int_def m[symmetric])
    have "strip (c # cs) = c # cs"
      using lastdig cdig by (intro strip_id) (simp_all add: digit_not_space)
    then show ?thesis using False val cne by (simp add: py_int_def s)
  qed
qed

lemma to_int_PyInt: "to_int fl (PyInt n) = Some n"
  by (simp add: to_int_def py_str_def py_int_str_int)

section \<open>Stage 1: lemmas about the row loop\<close>

lemma map_of_snoc:
  "map_of (al @ [(k, v)]) x = (case map_of al x of Some y \<Rightarrow> Some y | None \<Rightarrow> if x = k then Some v else None)"
  by (simp add: map_add_def split: option.splits)

lemma map_of_Some_key: "map_of al k = Some v \<Longrightarrow> k \<in> fst ` set al"
  by (metis domI dom_map_of_conv_image_fst)

lemma count_get_setdefault [simp]: "count_get (setdefault n 0 d) k = count_get d k"
  by (auto simp: count_get_def setdefault_def map_of_snoc simp del: map_of_append split: option.splits)

lemma count_get_update [simp]: "count_get (AList.update n v d) k = (if k = n then v else count_get d k)"
  by (simp add: count_get_def update_conv')

lemma slide_stage_cases:
  "slide_stage st v =
     (if is_blank v then Some (last_slide st, st)
      else case slide_cell_int v of
             None \<Rightarrow> None
           | Some n \<Rightarrow> Some (Some n, st\<lparr>last_slide := Some n,
                                         audio_counts := setdefault n 0 (audio_counts st)\<rparr>))"
  by (auto simp: slide_stage_def is_blank_def slide_cell_int_def split: option.splits)

lemma slide_cell_int_blank: "is_blank v \<Longrightarrow> slide_cell_int v = None"
  by (auto simp: is_blank_def slide_cell_int_def split: option.splits)

lemma row_stage_last_slide [simp]: "last_slide (row_stage b ln st n r) = last_slide st"
  by (simp add: row_stage_def Let_def)

lemma row_stage_counts:
  "count_get (audio_counts (row_stage b ln st n r)) k =
     (if k = n \<and> has_content r then count_get (audio_counts st) n + 1 else count_get (audio_counts st) k)"
  by (simp add: row_stage_def Let_def)

lemma row_stage_slides_other:
  "m \<noteq> n \<Longrightarrow> map_of (slides_by_num (row_stage b ln st n r)) m = map_of (slides_by_num st) m"
  by (auto simp: row_stage_def Let_def map_of_map_entry map_of_snoc simp del: map_of_append split: option.splits)

lemma row_stage_slides_same:
  "has_content r \<Longrightarrow>
   \<exists>sl. map_of (slides_by_num (row_stage b ln st n r)) n = Some sl \<and>
        slide_number sl = (case map_of (slides_by_num st) n of None \<Rightarrow> n | Some old \<Rightarrow> slide_number old) \<and>
        audio sl = (case map_of (slides_by_num st) n of None \<Rightarrow> [] | Some old \<Rightarrow> audio old)
                     @ [make_item b n (count_get (audio_counts st) n + 1) r]"
  by (auto simp: row_stage_def Let_def map_of_map_entry add_audio_def map_of_snoc simp del: map_of_append split: option.splits)

lemma row_stage_no_content:
  "\<not> has_content r \<Longrightarrow> slides_by_num (row_stage b ln st n r) = slides_by_num st"
  by (simp add: row_stage_def Let_def)

lemma row_stage_keys:
  "fst ` set (slides_by_num (row_stage b ln st n r)) =
     (if has_content r then insert n (fst ` set (slides_by_num st)) else fst ` set (slides_by_num st))"
  by (auto simp: row_stage_def Let_def dom_map_entry map_of_eq_None_iff[symmetric] map_of_Some_key
           simp del: map_of_eq_None_iff split: option.splits)

lemma row_stage_distinct:
  "distinct (map fst (slides_by_num st)) \<Longrightarrow> distinct (map fst (slides_by_num (row_stage b ln st n r)))"
  by (auto simp: row_stage_def Let_def map_of_eq_None_iff intro!: distinct_map_entry split: option.splits)

lemma row_stage_new_slide:
  "map_of (slides_by_num st) n = None \<Longrightarrow> map_of (slides_by_num (row_stage b ln st n r)) n = Some sl \<Longrightarrow>
   slide_section sl = last_section (row_stage b ln st n r) \<and> slide_title sl = last_title (row_stage b ln st n r)"
  by (auto simp: row_stage_def Let_def map_of_map_entry add_audio_def map_of_snoc simp del: map_of_append split: option.splits if_splits)

lemma or_else_blank: "is_blank c \<Longrightarrow> or_else (clean c) x = x"
  by (auto simp: is_blank_def or_else_def clean_def split_ws_def split: option.splits)

lemma row_stage_section:
  "last_section (row_stage b ln st n r) = or_else (clean (r_section r)) (last_section st)"
  "last_title (row_stage b ln st n r) = or_else (clean (r_title r)) (last_title st)"
  by (simp_all add: row_stage_def Let_def)

lemma row_stage_inv:
  assumes "agg_inv b st"
  shows "agg_inv b (row_stage b ln st n r)"
proof (cases "has_content r")
  case False
  then show ?thesis using assms
    by (simp add: agg_inv_def row_stage_no_content row_stage_counts)
next
  case True
  let ?st' = "row_stage b ln st n r"
  have d: "distinct (map fst (slides_by_num ?st'))"
    using assms by (simp add: agg_inv_def row_stage_distinct)
  obtain sl where sl: "map_of (slides_by_num ?st') n = Some sl"
    and num: "slide_number sl = (case map_of (slides_by_num st) n of None \<Rightarrow> n | Some old \<Rightarrow> slide_number old)"
    and aud: "audio sl = (case map_of (slides_by_num st) n of None \<Rightarrow> [] | Some old \<Rightarrow> audio old)
                     @ [make_item b n (count_get (audio_counts st) n + 1) r]"
    using row_stage_slides_same[OF True] by blast
  define old where "old = (case map_of (slides_by_num st) n of None \<Rightarrow> [] | Some o' \<Rightarrow> audio o')"
  have old_len: "count_get (audio_counts st) n = length old"
    using assms by (auto simp: agg_inv_def old_def split: option.splits)
  have old_names: "map filename old = map (make_filename b n) [1..<Suc (length old)]"
    using assms by (auto simp: agg_inv_def old_def simp del: upt_Suc split: option.splits)
  have num': "slide_number sl = n"
    using assms num by (auto simp: agg_inv_def split: option.splits)
  have aud': "audio sl = old @ [make_item b n (Suc (length old)) r]"
    using aud old_len by (simp add: old_def)
  have upt: "[Suc 0..<Suc (Suc (length old))] = [Suc 0..<Suc (length old)] @ [Suc (length old)]"
    by simp
  have names: "map filename (audio sl) = map (make_filename b n) [1..<Suc (length (audio sl))]"
    using old_names by (simp add: aud' make_item_def upt del: upt_Suc)
  have cnt: "count_get (audio_counts ?st') n = length (audio sl)"
    using True old_len by (simp add: row_stage_counts aud')
  have same: "\<And>s. map_of (slides_by_num ?st') n = Some s \<Longrightarrow>
        slide_number s = n \<and>
        map filename (audio s) = map (make_filename b n) [1..<Suc (length (audio s))] \<and>
        count_get (audio_counts ?st') n = length (audio s)"
    using sl num' names cnt by simp
  have other: "\<And>m s. m \<noteq> n \<Longrightarrow> map_of (slides_by_num ?st') m = Some s \<Longrightarrow>
        slide_number s = m \<and>
        map filename (audio s) = map (make_filename b m) [1..<Suc (length (audio s))] \<and>
        count_get (audio_counts ?st') m = length (audio s)"
    using assms by (simp add: row_stage_slides_other row_stage_counts agg_inv_def)
  have none: "\<And>m. map_of (slides_by_num ?st') m = None \<Longrightarrow> count_get (audio_counts ?st') m = 0"
  proof -
    fix m assume m: "map_of (slides_by_num ?st') m = None"
    then have "m \<noteq> n" using sl by auto
    then show "count_get (audio_counts ?st') m = 0"
      using assms m by (simp add: row_stage_slides_other row_stage_counts agg_inv_def)
  qed
  show ?thesis
    unfolding agg_inv_def
  proof (intro conjI allI impI)
    show "distinct (map fst (slides_by_num ?st'))" by (rule d)
  next
    fix m s assume "map_of (slides_by_num ?st') m = Some s"
    then show "slide_number s = m" using same other by (cases "m = n") auto
  next
    fix m s assume "map_of (slides_by_num ?st') m = Some s"
    then show "map filename (audio s) = map (make_filename b m) [1..<Suc (length (audio s))]"
      using same other by (cases "m = n") auto
  next
    fix m s assume "map_of (slides_by_num ?st') m = Some s"
    then show "count_get (audio_counts ?st') m = length (audio s)"
      using same other by (cases "m = n") auto
  next
    fix m assume "map_of (slides_by_num ?st') m = None"
    then show "count_get (audio_counts ?st') m = 0" by (rule none)
  qed
qed

lemma step_cases:
  "step b ln st r =
     (if is_blank (r_slide r) then
        (case last_slide st of None \<Rightarrow> st | Some n \<Rightarrow> row_stage b ln st n r)
      else case slide_cell_int (r_slide r) of
             None \<Rightarrow> st
           | Some n \<Rightarrow> row_stage b ln (st\<lparr>last_slide := Some n,
                                           audio_counts := setdefault n 0 (audio_counts st)\<rparr>) n r)"
  by (simp add: step_def slide_stage_cases split: option.splits)

lemma setdefault_inv:
  "agg_inv b st \<Longrightarrow> agg_inv b (st\<lparr>last_slide := x, audio_counts := setdefault n 0 (audio_counts st)\<rparr>)"
  by (simp add: agg_inv_def)

lemma step_inv: "agg_inv b st \<Longrightarrow> agg_inv b (step b ln st r)"
  by (auto simp: step_cases intro!: row_stage_inv setdefault_inv split: option.splits)

lemma foldl_step_inv: "agg_inv b st \<Longrightarrow> agg_inv b (foldl (step b ln) st rows)"
  by (induction rows arbitrary: st) (simp_all add: step_inv)

lemma init_inv: "agg_inv b init_state"
  by (simp add: agg_inv_def init_state_def count_get_def)

lemma aggregate_inv: "agg_inv b (aggregate b ln rows)"
  by (simp add: aggregate_def foldl_step_inv init_inv)

lemma total_loop_eq:
  "total_loop xs (out, tot) =
     (out @ map (\<lambda>s. s\<lparr>audio_total := Some (length (audio s))\<rparr>) xs,
      tot + sum_list (map (\<lambda>s. length (audio s)) xs))"
  by (induction xs arbitrary: out tot) (simp_all add: Let_def)

lemma compile_sheet_slides:
  "slides (compile_sheet codes t b lv un ln rows) =
     map (\<lambda>s. s\<lparr>audio_total := Some (length (audio s))\<rparr>)
         (sort_key slide_number (map snd (slides_by_num (aggregate b ln rows))))"
  by (simp add: compile_sheet_def total_loop_eq Let_def)

lemma compile_sheet_totals:
  "totals_slides (compile_sheet codes t b lv un ln rows) = length (slides (compile_sheet codes t b lv un ln rows))"
  "totals_audio_items (compile_sheet codes t b lv un ln rows) =
     sum_list (map (\<lambda>s. length (audio s)) (sort_key slide_number (map snd (slides_by_num (aggregate b ln rows)))))"
  by (simp_all add: compile_sheet_def total_loop_eq Let_def)


lemma step_last_slide:
  "last_slide (step b ln st r) = (case slide_cell_int (r_slide r) of Some n \<Rightarrow> Some n | None \<Rightarrow> last_slide st)"
  by (auto simp: step_cases slide_cell_int_blank split: option.splits)

lemma foldl_last_slide:
  "last_slide (foldl (step b ln) st rows) =
     (case recent_slide rows of Some n \<Rightarrow> Some n | None \<Rightarrow> last_slide st)"
  by (induction rows arbitrary: st) (auto simp: recent_slide_def step_last_slide split: option.splits)

lemma aggregate_last_slide: "last_slide (aggregate b ln rows) = recent_slide rows"
  by (simp add: aggregate_def foldl_last_slide init_state_def split: option.splits)

lemma or_else_None: "or_else a b = (case or_else a None of Some x \<Rightarrow> Some x | None \<Rightarrow> b)"
  by (simp add: or_else_def split: option.splits)

lemma step_dichotomy:
  "(step b ln st r = st \<and>
      resolving (last_slide st \<noteq> None) (r # rows) = resolving (last_slide st \<noteq> None) rows) \<or>
   (last_section (step b ln st r) = or_else (clean (r_section r)) (last_section st) \<and>
    last_title (step b ln st r) = or_else (clean (r_title r)) (last_title st) \<and>
    last_slide (step b ln st r) \<noteq> None \<and>
    resolving (last_slide st \<noteq> None) (r # rows) = r # resolving True rows)"
  by (auto simp: step_cases slide_cell_int_blank row_stage_section split: option.splits)

lemma foldl_last_section:
  "last_section (foldl (step b ln) st rows) =
     (case carried r_section (resolving (last_slide st \<noteq> None) rows) of
        Some x \<Rightarrow> Some x | None \<Rightarrow> last_section st)"
proof (induction rows arbitrary: st)
  case Nil
  show ?case by (simp add: carried_def)
next
  case (Cons r rows)
  have IH: "last_section (foldl (step b ln) st (r # rows)) =
     (case carried r_section (resolving (last_slide (step b ln st r) \<noteq> None) rows) of
        Some x \<Rightarrow> Some x | None \<Rightarrow> last_section (step b ln st r))"
    by (simp add: Cons)
  from step_dichotomy[of b ln st r rows] show ?case
  proof
    assume "step b ln st r = st \<and>
      resolving (last_slide st \<noteq> None) (r # rows) = resolving (last_slide st \<noteq> None) rows"
    then have e1: "step b ln st r = st"
      and e2: "resolving (last_slide st \<noteq> None) (r # rows) = resolving (last_slide st \<noteq> None) rows"
      by blast+
    show ?thesis unfolding e2 IH e1 ..
  next
    assume p: "last_section (step b ln st r) = or_else (clean (r_section r)) (last_section st) \<and>
      last_title (step b ln st r) = or_else (clean (r_title r)) (last_title st) \<and>
      last_slide (step b ln st r) \<noteq> None \<and>
      resolving (last_slide st \<noteq> None) (r # rows) = r # resolving True rows"
    then have e1: "last_section (step b ln st r) = or_else (clean (r_section r)) (last_section st)"
      and e2: "last_slide (step b ln st r) \<noteq> None"
      and e3: "resolving (last_slide st \<noteq> None) (r # rows) = r # resolving True rows"
      by blast+
    show ?thesis
      unfolding e3 IH e1 using e2 or_else_None[of "clean (r_section r)" "last_section st"]
      by (simp add: carried_def split: option.splits)
  qed
qed

lemma foldl_last_title:
  "last_title (foldl (step b ln) st rows) =
     (case carried r_title (resolving (last_slide st \<noteq> None) rows) of
        Some x \<Rightarrow> Some x | None \<Rightarrow> last_title st)"
proof (induction rows arbitrary: st)
  case Nil
  show ?case by (simp add: carried_def)
next
  case (Cons r rows)
  have IH: "last_title (foldl (step b ln) st (r # rows)) =
     (case carried r_title (resolving (last_slide (step b ln st r) \<noteq> None) rows) of
        Some x \<Rightarrow> Some x | None \<Rightarrow> last_title (step b ln st r))"
    by (simp add: Cons)
  from step_dichotomy[of b ln st r rows] show ?case
  proof
    assume "step b ln st r = st \<and>
      resolving (last_slide st \<noteq> None) (r # rows) = resolving (last_slide st \<noteq> None) rows"
    then have e1: "step b ln st r = st"
      and e2: "resolving (last_slide st \<noteq> None) (r # rows) = resolving (last_slide st \<noteq> None) rows"
      by blast+
    show ?thesis unfolding e2 IH e1 ..
  next
    assume p: "last_section (step b ln st r) = or_else (clean (r_section r)) (last_section st) \<and>
      last_title (step b ln st r) = or_else (clean (r_title r)) (last_title st) \<and>
      last_slide (step b ln st r) \<noteq> None \<and>
      resolving (last_slide st \<noteq> None) (r # rows) = r # resolving True rows"
    then have e1: "last_title (step b ln st r) = or_else (clean (r_title r)) (last_title st)"
      and e2: "last_slide (step b ln st r) \<noteq> None"
      and e3: "resolving (last_slide st \<noteq> None) (r # rows) = r # resolving True rows"
      by blast+
    show ?thesis
      unfolding e3 IH e1 using e2 or_else_None[of "clean (r_title r)" "last_title st"]
      by (simp add: carried_def split: option.splits)
  qed
qed

lemma aggregate_last_section: "last_section (aggregate b ln rows) = carried r_section (resolving False rows)"
  by (simp add: aggregate_def foldl_last_section init_state_def split: option.splits)

lemma aggregate_last_title: "last_title (aggregate b ln rows) = carried r_title (resolving False rows)"
  by (simp add: aggregate_def foldl_last_title init_state_def split: option.splits)

lemma aggregate_snoc: "aggregate b ln (pre @ [r]) = step b ln (aggregate b ln pre) r"
  by (simp add: aggregate_def)

lemma step_blank_section:
  "is_blank (r_section r) \<Longrightarrow> last_section (step b ln st r) = last_section st"
  by (auto simp: step_cases row_stage_section or_else_blank split: option.splits)

lemma step_blank_title:
  "is_blank (r_title r) \<Longrightarrow> last_title (step b ln st r) = last_title st"
  by (auto simp: step_cases row_stage_section or_else_blank split: option.splits)

lemma step_new_slide:
  assumes "map_of (slides_by_num st) n = None" "map_of (slides_by_num (step b ln st r)) n = Some sl"
  shows "slide_section sl = last_section (step b ln st r) \<and> slide_title sl = last_title (step b ln st r)"
proof -
  have other: "\<And>m st'. slides_by_num st' = slides_by_num st \<Longrightarrow> m \<noteq> n \<Longrightarrow>
      map_of (slides_by_num (row_stage b ln st' m r)) n = None"
    using assms(1) by (simp add: row_stage_slides_other)
  show ?thesis
  proof (cases "is_blank (r_slide r)")
    case True
    show ?thesis
    proof (cases "last_slide st")
      case None
      then show ?thesis using assms True by (simp add: step_cases)
    next
      case (Some m)
      then have eq: "step b ln st r = row_stage b ln st m r" using True by (simp add: step_cases)
      have "m = n" using other[of st m] assms(2) eq by auto
      then show ?thesis using assms eq row_stage_new_slide[of st n b ln r sl] by simp
    qed
  next
    case False
    show ?thesis
    proof (cases "slide_cell_int (r_slide r)")
      case None
      then show ?thesis using assms False by (simp add: step_cases)
    next
      case (Some m)
      let ?st1 = "st\<lparr>last_slide := Some m, audio_counts := setdefault m 0 (audio_counts st)\<rparr>"
      have eq: "step b ln st r = row_stage b ln ?st1 m r" using False Some by (simp add: step_cases)
      have "m = n" using other[of ?st1 m] assms(2) eq by auto
      then show ?thesis using assms eq row_stage_new_slide[of ?st1 n b ln r sl] by simp
    qed
  qed
qed

lemma step_blank_slide:
  assumes "is_blank (r_slide r)" "last_slide st = Some n" "has_content r"
  shows "(\<exists>sl. map_of (slides_by_num (step b ln st r)) n = Some sl \<and>
               audio sl = (case map_of (slides_by_num st) n of None \<Rightarrow> [] | Some old \<Rightarrow> audio old)
                          @ [make_item b n (count_get (audio_counts st) n + 1) r])"
    and "count_get (audio_counts (step b ln st r)) n = count_get (audio_counts st) n + 1"
    and "fst ` set (slides_by_num (step b ln st r)) = insert n (fst ` set (slides_by_num st))"
    and "\<And>m. m \<noteq> n \<Longrightarrow> map_of (slides_by_num (step b ln st r)) m = map_of (slides_by_num st) m"
proof -
  have eq: "step b ln st r = row_stage b ln st n r" using assms by (simp add: step_cases)
  show "(\<exists>sl. map_of (slides_by_num (step b ln st r)) n = Some sl \<and>
               audio sl = (case map_of (slides_by_num st) n of None \<Rightarrow> [] | Some old \<Rightarrow> audio old)
                          @ [make_item b n (count_get (audio_counts st) n + 1) r])"
    using row_stage_slides_same[OF assms(3), of b ln st n] unfolding eq by blast
  show "count_get (audio_counts (step b ln st r)) n = count_get (audio_counts st) n + 1"
    using assms(3) by (simp add: eq row_stage_counts)
  show "fst ` set (slides_by_num (step b ln st r)) = insert n (fst ` set (slides_by_num st))"
    using assms(3) by (simp add: eq row_stage_keys)
  show "\<And>m. m \<noteq> n \<Longrightarrow> map_of (slides_by_num (step b ln st r)) m = map_of (slides_by_num st) m"
    by (simp add: eq row_stage_slides_other)
qed

section \<open>Header mapping: the two example cells\<close>

text \<open>
  C6 (as stated): the header cell \<^verbatim>\<open>Audio #\<close> maps to no field and the header cell
  \<^verbatim>\<open>Slide #\<close> maps to \<^verbatim>\<open>slide_number\<close>. The second half fails on the code: the pattern
  for slide headers accepts a leading \<^verbatim>\<open>#\<close> only, so \<^verbatim>\<open>Slide #\<close> falls through every rule.
\<close>

theorem map_header_slide_hash_counterexample:
  "map_header (Some ''Slide #'') \<noteq> Some ''slide_number''"
  by code_simp

text \<open>
  C6 (amended): \<^verbatim>\<open>Audio #\<close> maps to no field, and so does \<^verbatim>\<open>Slide #\<close>; the spellings
  \<^verbatim>\<open>Slide\<close>, \<^verbatim>\<open>Slides\<close>, \<^verbatim>\<open># Slide\<close>, \<^verbatim>\<open># Slides\<close> and \<^verbatim>\<open>Slide Number\<close> map to \<^verbatim>\<open>slide_number\<close>.
\<close>

theorem map_header_examples:
  "map_header (Some ''Audio #'') = None \<and>
   map_header (Some ''Slide #'') = None \<and>
   map_header (Some ''Slide'') = Some ''slide_number'' \<and>
   map_header (Some ''Slides'') = Some ''slide_number'' \<and>
   map_header (Some ''# Slide'') = Some ''slide_number'' \<and>
   map_header (Some ''# Slides'') = Some ''slide_number'' \<and>
   map_header (Some ''Slide Number'') = Some ''slide_number''"
  by code_simp

section \<open>Stage 1: the claims about the row loop\<close>

text \<open>
  C9: a data row whose slide cell is non-blank but does not parse as an integer is skipped
  whole: the state after the row is the state before it (no slide, no audio item, no change
  of the carried slide number, section or title), and the rows around it are aggregated as if
  the row were not there, so the sheet object is the same. The row loop of the model has no
  failing outcome, as the code's has none.
\<close>
theorem malformed_slide_row_skipped:
  assumes "r_slide r = Some s" and "strip s \<noteq> []" and "py_int (strip s) = None"
  shows "step b ln st r = st \<and>
         aggregate b ln (pre @ r # post) = aggregate b ln (pre @ post) \<and>
         compile_sheet codes t b lv un ln (pre @ r # post) = compile_sheet codes t b lv un ln (pre @ post)"
proof -
  have skip: "\<And>st'. step b ln st' r = st'"
    using assms by (simp add: step_def slide_stage_def)
  have agg: "aggregate b ln (pre @ r # post) = aggregate b ln (pre @ post)"
    by (simp add: aggregate_def skip)
  show ?thesis by (simp add: skip agg compile_sheet_def)
qed

theorem malformed_slide_row_skipped_witness:
  "r_slide (row_of (Some ''n/a'') (Some ''Intro'') None (Some ''hello'')) = Some ''n/a'' \<and>
   strip ''n/a'' \<noteq> [] \<and> py_int (strip ''n/a'') = None \<and>
   aggregate ''b'' 1 ([row_of (Some ''1'') None None (Some ''a'')]
        @ row_of (Some ''n/a'') (Some ''Intro'') None (Some ''hello'')
        # [row_of None None None (Some ''c'')])
     = aggregate ''b'' 1 ([row_of (Some ''1'') None None (Some ''a'')] @ [row_of None None None (Some ''c'')])"
proof -
  have h1: "r_slide (row_of (Some ''n/a'') (Some ''Intro'') None (Some ''hello'')) = Some ''n/a''"
    by (simp add: row_of_def)
  have h2: "strip ''n/a'' \<noteq> []" by code_simp
  have h3: "py_int (strip ''n/a'') = None" by code_simp
  show ?thesis
    using malformed_slide_row_skipped[OF h1 h2 h3] h1 h2 h3 by blast
qed

text \<open>
  C3 (as stated): a row whose slide cell parses as an integer resets that slide's audio counter
  to 0 even when the slide number was seen before, so that later items are numbered from 1
  again. On the code the counter of a slide seen before keeps its value: after one item on
  slide 7, a second row with slide cell \<^verbatim>\<open>7\<close> leaves the counter at 1 and its item is
  numbered 2.
\<close>
theorem audio_counter_reset_counterexample:
  "audio_counts (aggregate ''b'' 1 [row_of (Some ''7'') None None (Some ''a'')]) = [(7, 1)] \<and>
   map_option (audio_counts \<circ> snd)
     (slide_stage (aggregate ''b'' 1 [row_of (Some ''7'') None None (Some ''a'')]) (Some ''7''))
     = Some [(7, 1)] \<and>
   map filename (concat (map (audio \<circ> snd) (slides_by_num
     (aggregate ''b'' 1 [row_of (Some ''7'') None None (Some ''a''),
                         row_of (Some ''7'') None None (Some ''b'')]))))
     = [''b_7_1'', ''b_7_2'']"
  by code_simp

text \<open>
  C3 (amended): whenever a data row's slide cell is non-blank and parses as an integer \<open>n\<close>,
  the aggregator updates \<open>last_slide\<close> to \<open>n\<close> and gives slide \<open>n\<close> an audio counter of 0
  only if it has none yet; a counter that is already there keeps its value. The counter then
  grows by one exactly when the row carries an audio item, and that item is numbered one past
  the counter's value before the row, continuing the slide's numbering.
\<close>

theorem parsed_slide_row:
  assumes "r_slide r = Some s" and "strip s \<noteq> []" and "py_int (strip s) = Some n"
  shows "last_slide (step b ln st r) = Some n \<and>
         map_option (audio_counts \<circ> snd) (slide_stage st (r_slide r))
           = Some (case map_of (audio_counts st) n of None \<Rightarrow> audio_counts st @ [(n, 0)]
                                                     | Some c \<Rightarrow> audio_counts st) \<and>
         count_get (audio_counts (step b ln st r)) n
           = count_get (audio_counts st) n + (if has_content r then 1 else 0) \<and>
         (has_content r \<longrightarrow>
            (\<exists>sl. map_of (slides_by_num (step b ln st r)) n = Some sl \<and>
                  audio sl = (case map_of (slides_by_num st) n of None \<Rightarrow> [] | Some old \<Rightarrow> audio old)
                             @ [make_item b n (count_get (audio_counts st) n + 1) r]))"
proof -
  have nb: "\<not> is_blank (r_slide r)" using assms by (simp add: is_blank_def)
  have sci: "slide_cell_int (r_slide r) = Some n" using assms by (simp add: slide_cell_int_def)
  let ?st1 = "st\<lparr>last_slide := Some n, audio_counts := setdefault n 0 (audio_counts st)\<rparr>"
  have eq: "step b ln st r = row_stage b ln ?st1 n r"
    using nb sci by (simp add: step_cases)
  have a: "last_slide (step b ln st r) = Some n" by (simp add: eq)
  have b: "map_option (audio_counts \<circ> snd) (slide_stage st (r_slide r))
           = Some (case map_of (audio_counts st) n of None \<Rightarrow> audio_counts st @ [(n, 0)]
                                                     | Some c \<Rightarrow> audio_counts st)"
    using nb sci by (simp add: slide_stage_cases setdefault_def)
  have c: "count_get (audio_counts (step b ln st r)) n
           = count_get (audio_counts st) n + (if has_content r then 1 else 0)"
    by (simp add: eq row_stage_counts)
  have d: "has_content r \<longrightarrow>
            (\<exists>sl. map_of (slides_by_num (step b ln st r)) n = Some sl \<and>
                  audio sl = (case map_of (slides_by_num st) n of None \<Rightarrow> [] | Some old \<Rightarrow> audio old)
                             @ [make_item b n (count_get (audio_counts st) n + 1) r])"
  proof
    assume "has_content r"
    from row_stage_slides_same[OF this, of b ln ?st1 n]
    obtain sl where "map_of (slides_by_num (row_stage b ln ?st1 n r)) n = Some sl"
      and "audio sl = (case map_of (slides_by_num ?st1) n of None \<Rightarrow> [] | Some old \<Rightarrow> audio old)
                     @ [make_item b n (count_get (audio_counts ?st1) n + 1) r]"
      by blast
    then show "\<exists>sl. map_of (slides_by_num (step b ln st r)) n = Some sl \<and>
                  audio sl = (case map_of (slides_by_num st) n of None \<Rightarrow> [] | Some old \<Rightarrow> audio old)
                             @ [make_item b n (count_get (audio_counts st) n + 1) r]"
      by (simp add: eq)
  qed
  show ?thesis using a b c d by blast
qed


theorem parsed_slide_row_witness:
  "r_slide (row_of (Some ''7'') None None (Some ''b'')) = Some ''7'' \<and>
   strip ''7'' \<noteq> [] \<and> py_int (strip ''7'') = Some 7 \<and>
   has_content (row_of (Some ''7'') None None (Some ''b'')) \<and>
   count_get (audio_counts (aggregate ''b'' 1 [row_of (Some ''7'') None None (Some ''a'')])) 7 = 1 \<and>
   last_slide (step ''b'' 1 (aggregate ''b'' 1 [row_of (Some ''7'') None None (Some ''a'')])
                 (row_of (Some ''7'') None None (Some ''b''))) = Some 7 \<and>
   count_get (audio_counts (step ''b'' 1 (aggregate ''b'' 1 [row_of (Some ''7'') None None (Some ''a'')])
                 (row_of (Some ''7'') None None (Some ''b'')))) 7 = 2"
proof -
  have h1: "r_slide (row_of (Some ''7'') None None (Some ''b'')) = Some ''7''"
    by (simp add: row_of_def)
  have h2: "strip ''7'' \<noteq> []" by code_simp
  have h3: "py_int (strip ''7'') = Some 7" by code_simp
  have h4: "has_content (row_of (Some ''7'') None None (Some ''b''))" by code_simp
  have c: "count_get (audio_counts (aggregate ''b'' 1 [row_of (Some ''7'') None None (Some ''a'')])) 7 = 1"
    by code_simp
  show ?thesis
    using parsed_slide_row[OF h1 h2 h3,
            where b = "''b''" and ln = 1
              and st = "aggregate ''b'' 1 [row_of (Some ''7'') None None (Some ''a'')]"]
          h1 h2 h3 h4 c
    by simp
qed

text \<open>
  C4: for every slide of the sheet object built from one sheet's rows, \<open>audio_total\<close> is the
  length of the slide's audio sequence and the file names of the audio items, in the order
  they were appended, are \<^verbatim>\<open>{base}_{slide_number}_{i}\<close> for \<open>i = 1, \<dots>, audio_total\<close>.
\<close>
theorem audio_filenames_contiguous:
  assumes "s \<in> set (slides (compile_sheet codes t b lv un ln rows))"
  shows "audio_total s = Some (length (audio s)) \<and>
         map filename (audio s) = map (make_filename b (slide_number s)) [1..<Suc (length (audio s))]"
proof -
  let ?al = "slides_by_num (aggregate b ln rows)"
  from assms obtain s0 where s0: "s0 \<in> set (map snd ?al)"
    and s: "s = s0\<lparr>audio_total := Some (length (audio s0))\<rparr>"
    by (auto simp: compile_sheet_slides)
  from s0 obtain n where "(n, s0) \<in> set ?al" by auto
  moreover have inv: "agg_inv b (aggregate b ln rows)" by (rule aggregate_inv)
  ultimately have m: "map_of ?al n = Some s0"
    by (simp add: agg_inv_def)
  from inv m have "slide_number s0 = n"
    and "map filename (audio s0) = map (make_filename b n) [1..<Suc (length (audio s0))]"
    unfolding agg_inv_def by blast+
  then show ?thesis by (simp add: s)
qed

theorem audio_filenames_contiguous_witness:
  "hd (slides (compile_sheet [] ''L1 U1 Lesson 1'' ''b'' 1 1 1
         [row_of (Some ''7'') None None (Some ''a''), row_of None None None (Some ''b'')]))
     \<in> set (slides (compile_sheet [] ''L1 U1 Lesson 1'' ''b'' 1 1 1
         [row_of (Some ''7'') None None (Some ''a''), row_of None None None (Some ''b'')])) \<and>
   audio_total (hd (slides (compile_sheet [] ''L1 U1 Lesson 1'' ''b'' 1 1 1
         [row_of (Some ''7'') None None (Some ''a''), row_of None None None (Some ''b'')]))) = Some 2 \<and>
   map filename (audio (hd (slides (compile_sheet [] ''L1 U1 Lesson 1'' ''b'' 1 1 1
         [row_of (Some ''7'') None None (Some ''a''), row_of None None None (Some ''b'')]))))
     = [''b_7_1'', ''b_7_2'']"
proof -
  let ?obj = "compile_sheet [] ''L1 U1 Lesson 1'' ''b'' 1 1 1
         [row_of (Some ''7'') None None (Some ''a''), row_of None None None (Some ''b'')]"
  have ne: "slides ?obj \<noteq> []" by code_simp
  then have h: "hd (slides ?obj) \<in> set (slides ?obj)" by simp
  have v: "map filename (audio (hd (slides ?obj))) = [''b_7_1'', ''b_7_2'']" by code_simp
  have "length (audio (hd (slides ?obj))) = length (map filename (audio (hd (slides ?obj))))" by simp
  also have "\<dots> = 2" unfolding v by simp
  finally have l: "length (audio (hd (slides ?obj))) = 2" .
  from audio_filenames_contiguous[OF h] l h v show ?thesis by simp
qed

text \<open>
  C8: for every sheet object, \<open>totals.slides\<close> is the number of slides and
  \<open>totals.audio_items\<close> is the sum of the slides' \<open>audio_total\<close> values (every slide has
  one: the list \<open>ks\<close> of the values).
\<close>
theorem sheet_totals:
  "totals_slides (compile_sheet codes t b lv un ln rows)
     = length (slides (compile_sheet codes t b lv un ln rows)) \<and>
   (\<exists>ks. map audio_total (slides (compile_sheet codes t b lv un ln rows)) = map Some ks \<and>
         totals_audio_items (compile_sheet codes t b lv un ln rows) = sum_list ks)"
proof -
  let ?xs = "sort_key slide_number (map snd (slides_by_num (aggregate b ln rows)))"
  have "map audio_total (slides (compile_sheet codes t b lv un ln rows))
          = map Some (map (\<lambda>s. length (audio s)) ?xs)"
    by (simp add: compile_sheet_slides)
  moreover have "totals_audio_items (compile_sheet codes t b lv un ln rows)
          = sum_list (map (\<lambda>s. length (audio s)) ?xs)"
    by (rule compile_sheet_totals)
  ultimately show ?thesis
    using compile_sheet_totals(1)[of codes t b lv un ln rows] by blast
qed

text \<open>
  C5 (as stated): a blank section or title cell inherits the most recent non-blank section or
  title value. On the code a row that has not resolved to a slide number is left before the
  section and title are recorded: a heading row above the first slide number carries the
  section \<^verbatim>\<open>Lesson Opener\<close>, the most recent non-blank section value of the rows, and the
  slide of the next row, whose section cell is blank, has no section.
\<close>
theorem section_inheritance_counterexample:
  "carried r_section
     [row_of None (Some ''Lesson Opener'') None None,
      row_of (Some ''1'') None (Some ''Hello'') (Some ''Welcome'')] = Some ''Lesson Opener'' \<and>
   map slide_section (slides (compile_sheet [] ''L1 U1 Lesson 1'' ''b'' 1 1 1
     [row_of None (Some ''Lesson Opener'') None None,
      row_of (Some ''1'') None (Some ''Hello'') (Some ''Welcome'')])) = [None]"
  by code_simp

text \<open>
  C5 (amended): during aggregation of one sheet's data rows, a row whose slide cell is blank
  resolves to the slide number of the most recent row with a non-blank parseable slide cell;
  when it carries an audio item, the item is appended to the slide of that number (which the
  row materialises if no earlier row gave it an item), that slide's audio counter grows by
  one, and no slide of another number is created or changed. Likewise a blank section or
  title cell inherits the carried value, which is the most recent non-blank section or title
  value among the rows that resolved to a slide number (rows skipped for a missing or
  malformed slide number leave it untouched); a slide materialised by a row gets the row's
  resolved section and title.
\<close>

theorem carry_forward_rows:
  "(is_blank (r_slide r) \<longrightarrow>
      slide_stage (aggregate b ln pre) (r_slide r) = Some (recent_slide pre, aggregate b ln pre) \<and>
      (\<forall>n. recent_slide pre = Some n \<and> has_content r \<longrightarrow>
         (\<exists>sl. map_of (slides_by_num (aggregate b ln (pre @ [r]))) n = Some sl \<and>
               audio sl = (case map_of (slides_by_num (aggregate b ln pre)) n of
                             None \<Rightarrow> [] | Some old \<Rightarrow> audio old)
                          @ [make_item b n (count_get (audio_counts (aggregate b ln pre)) n + 1) r]) \<and>
         count_get (audio_counts (aggregate b ln (pre @ [r]))) n
           = count_get (audio_counts (aggregate b ln pre)) n + 1 \<and>
         fst ` set (slides_by_num (aggregate b ln (pre @ [r])))
           = insert n (fst ` set (slides_by_num (aggregate b ln pre))) \<and>
         (\<forall>m. m \<noteq> n \<longrightarrow> map_of (slides_by_num (aggregate b ln (pre @ [r]))) m
                          = map_of (slides_by_num (aggregate b ln pre)) m))) \<and>
   last_section (aggregate b ln pre) = carried r_section (resolving False pre) \<and>
   last_title (aggregate b ln pre) = carried r_title (resolving False pre) \<and>
   (is_blank (r_section r) \<longrightarrow>
      last_section (aggregate b ln (pre @ [r])) = last_section (aggregate b ln pre)) \<and>
   (is_blank (r_title r) \<longrightarrow>
      last_title (aggregate b ln (pre @ [r])) = last_title (aggregate b ln pre)) \<and>
   (\<forall>n sl. map_of (slides_by_num (aggregate b ln pre)) n = None \<and>
           map_of (slides_by_num (aggregate b ln (pre @ [r]))) n = Some sl \<longrightarrow>
           slide_section sl = last_section (aggregate b ln (pre @ [r])) \<and>
           slide_title sl = last_title (aggregate b ln (pre @ [r])))"
proof -
  let ?st = "aggregate b ln pre"
  have ls: "last_slide ?st = recent_slide pre" by (rule aggregate_last_slide)
  have p1: "is_blank (r_slide r) \<Longrightarrow>
      slide_stage ?st (r_slide r) = Some (recent_slide pre, ?st)"
    by (simp add: slide_stage_cases ls)
  have p2: "is_blank (r_slide r) \<Longrightarrow> recent_slide pre = Some n \<and> has_content r \<Longrightarrow>
         (\<exists>sl. map_of (slides_by_num (aggregate b ln (pre @ [r]))) n = Some sl \<and>
               audio sl = (case map_of (slides_by_num ?st) n of
                             None \<Rightarrow> [] | Some old \<Rightarrow> audio old)
                          @ [make_item b n (count_get (audio_counts ?st) n + 1) r]) \<and>
         count_get (audio_counts (aggregate b ln (pre @ [r]))) n
           = count_get (audio_counts ?st) n + 1 \<and>
         fst ` set (slides_by_num (aggregate b ln (pre @ [r])))
           = insert n (fst ` set (slides_by_num ?st)) \<and>
         (\<forall>m. m \<noteq> n \<longrightarrow> map_of (slides_by_num (aggregate b ln (pre @ [r]))) m
                          = map_of (slides_by_num ?st) m)" for n
    unfolding aggregate_snoc
    using step_blank_slide[where r=r and st="?st" and n=n and b=b and ln=ln] ls by simp
  have p3: "last_section ?st = carried r_section (resolving False pre)"
    by (rule aggregate_last_section)
  have p4: "last_title ?st = carried r_title (resolving False pre)"
    by (rule aggregate_last_title)
  have p5: "is_blank (r_section r) \<Longrightarrow>
      last_section (aggregate b ln (pre @ [r])) = last_section ?st"
    unfolding aggregate_snoc by (rule step_blank_section)
  have p6: "is_blank (r_title r) \<Longrightarrow>
      last_title (aggregate b ln (pre @ [r])) = last_title ?st"
    unfolding aggregate_snoc by (rule step_blank_title)
  have p7: "map_of (slides_by_num ?st) n = None \<and>
           map_of (slides_by_num (aggregate b ln (pre @ [r]))) n = Some sl \<Longrightarrow>
           slide_section sl = last_section (aggregate b ln (pre @ [r])) \<and>
           slide_title sl = last_title (aggregate b ln (pre @ [r]))" for n sl
    unfolding aggregate_snoc using step_new_slide[where st="?st" and n=n and b=b and ln=ln and r=r and sl=sl] by blast
  show ?thesis
    using p1 p2 p3 p4 p5 p6 p7 by blast
qed

theorem carry_forward_rows_witness:
  "is_blank (r_slide ex_cont) \<and> is_blank (r_section ex_cont) \<and> is_blank (r_title ex_cont) \<and>
   has_content ex_cont \<and> recent_slide ex_pre = Some 1 \<and>
   map_of (slides_by_num (aggregate ''b'' 1 ex_pre)) 1 = None \<and>
   slide_stage (aggregate ''b'' 1 ex_pre) (r_slide ex_cont) = Some (Some 1, aggregate ''b'' 1 ex_pre) \<and>
   (\<exists>sl. map_of (slides_by_num (aggregate ''b'' 1 (ex_pre @ [ex_cont]))) 1 = Some sl \<and>
         audio sl = [make_item ''b'' 1 1 ex_cont] \<and>
         slide_section sl = Some ''Intro'' \<and> slide_title sl = Some ''Hello'') \<and>
   count_get (audio_counts (aggregate ''b'' 1 (ex_pre @ [ex_cont]))) 1 = 1 \<and>
   last_section (aggregate ''b'' 1 (ex_pre @ [ex_cont])) = Some ''Intro''"
proof -
  note T = carry_forward_rows[where r=ex_cont and b="''b''" and ln=1 and pre=ex_pre]
  have h1: "is_blank (r_slide ex_cont)" by code_simp
  have h2: "is_blank (r_section ex_cont)" by code_simp
  have h3: "is_blank (r_title ex_cont)" by code_simp
  have h4: "has_content ex_cont" by code_simp
  have h5: "recent_slide ex_pre = Some 1" by code_simp
  have h6: "map_of (slides_by_num (aggregate ''b'' 1 ex_pre)) 1 = None" by code_simp
  have c0: "count_get (audio_counts (aggregate ''b'' 1 ex_pre)) 1 = 0" by code_simp
  have s0: "carried r_section (resolving False ex_pre) = Some ''Intro''" by code_simp
  have t0: "carried r_title (resolving False ex_pre) = Some ''Hello''" by code_simp
  from T h1 have a: "slide_stage (aggregate ''b'' 1 ex_pre) (r_slide ex_cont)
      = Some (Some 1, aggregate ''b'' 1 ex_pre)"
    unfolding h5 by blast
  from T h1 h5 h4 obtain sl where sl: "map_of (slides_by_num (aggregate ''b'' 1 (ex_pre @ [ex_cont]))) 1 = Some sl"
    and au: "audio sl = (case map_of (slides_by_num (aggregate ''b'' 1 ex_pre)) 1 of
                             None \<Rightarrow> [] | Some old \<Rightarrow> audio old)
                @ [make_item ''b'' 1 (count_get (audio_counts (aggregate ''b'' 1 ex_pre)) 1 + 1) ex_cont]"
    by blast
  from T h1 h5 h4 have cnt: "count_get (audio_counts (aggregate ''b'' 1 (ex_pre @ [ex_cont]))) 1
           = count_get (audio_counts (aggregate ''b'' 1 ex_pre)) 1 + 1"
    by blast
  from T h2 s0 have sec: "last_section (aggregate ''b'' 1 (ex_pre @ [ex_cont])) = Some ''Intro''"
    by simp
  from T h3 t0 have tit: "last_title (aggregate ''b'' 1 (ex_pre @ [ex_cont])) = Some ''Hello''"
    by simp
  from T h6 sl have new: "slide_section sl = last_section (aggregate ''b'' 1 (ex_pre @ [ex_cont])) \<and>
           slide_title sl = last_title (aggregate ''b'' 1 (ex_pre @ [ex_cont]))"
    by blast
  have au': "audio sl = [make_item ''b'' 1 1 ex_cont]"
    using au by (simp add: h6 c0)
  show ?thesis
    using h1 h2 h3 h4 h5 h6 a sl au' new sec tit cnt c0 by simp
qed

section \<open>Stage 2: lemmas about grouping and the block loop\<close>

lemma first_seen_snoc:
  "first_seen (xs @ [x]) = (if x \<in> set xs then first_seen xs else first_seen xs @ [x])"
  by (simp add: first_seen_def)

lemma set_first_seen [simp]: "set (first_seen xs) = set xs"
  by (simp add: first_seen_def)

lemma distinct_first_seen [simp]: "distinct (first_seen xs)"
  by (simp add: first_seen_def)

lemma first_seen_Nil [simp]: "first_seen [] = []"
  by (simp add: first_seen_def)

lemma first_seen_filter: "first_seen (filter P xs) = filter P (first_seen xs)"
  by (simp add: first_seen_def rev_filter remdups_filter)

lemma first_seen_Cons: "first_seen (x # xs) = x # first_seen (filter (\<lambda>y. y \<noteq> x) xs)"
proof -
  have "remdups (ys @ [x]) = remdups (filter (\<lambda>y. y \<noteq> x) ys) @ [x]" for ys
    by (induction ys) auto
  then show ?thesis
    by (simp add: first_seen_def rev_filter)
qed

lemma hd_first_seen: "hd (first_seen xs) = hd xs"
  by (cases xs) (simp_all add: first_seen_Cons)

lemma group_add_map:
  "distinct ks \<Longrightarrow>
   group_add k t (map (\<lambda>k'. (k', F k')) ks) =
     (if k \<in> set ks then map (\<lambda>k'. (k', if k' = k then F k' @ [t] else F k')) ks
      else map (\<lambda>k'. (k', F k')) ks @ [(k, [t])])"
  by (induction ks) auto

lemma group_toc_snoc:
  "group_toc (ts @ [t]) = group_add (entry_block t) t (group_toc ts)"
  by (simp add: group_toc_def entry_block_def)

lemma group_toc_eq:
  "group_toc t = map (\<lambda>k. (k, filter (\<lambda>x. entry_block x = k) t)) (first_seen (map entry_block t))"
proof (induction t rule: rev_induct)
  case Nil
  show ?case by (simp add: group_toc_def)
next
  case (snoc x xs)
  let ?k = "entry_block x"
  let ?ks = "first_seen (map entry_block xs)"
  have "group_toc (xs @ [x]) = group_add ?k x (map (\<lambda>k. (k, filter (\<lambda>y. entry_block y = k) xs)) ?ks)"
    by (simp add: group_toc_snoc snoc)
  also have "\<dots> = (if ?k \<in> set ?ks
       then map (\<lambda>k'. (k', if k' = ?k then filter (\<lambda>y. entry_block y = k') xs @ [x]
                              else filter (\<lambda>y. entry_block y = k') xs)) ?ks
       else map (\<lambda>k'. (k', filter (\<lambda>y. entry_block y = k') xs)) ?ks @ [(?k, [x])])"
    by (rule group_add_map) simp
  also have "\<dots> = map (\<lambda>k. (k, filter (\<lambda>y. entry_block y = k) (xs @ [x])))
                      (first_seen (map entry_block (xs @ [x])))"
  proof (cases "?k \<in> set ?ks")
    case True
    then show ?thesis by (auto simp: first_seen_snoc)
  next
    case False
    then have "\<And>y. y \<in> set xs \<Longrightarrow> entry_block y \<noteq> ?k"
      by (auto simp: image_iff)
    then have "filter (\<lambda>y. entry_block y = ?k) xs = []"
      by (simp add: filter_empty_conv)
    with False show ?thesis by (auto simp: first_seen_snoc)
  qed
  finally show ?case .
qed

lemma scan_toc_numbers:
  "snd (scan_toc fl ts (tbs, sns)) = sns @ parsed_slide_numbers fl ts"
  by (induction ts arbitrary: tbs sns)
     (auto simp: parsed_slide_numbers_def split: option.splits)

lemma au_loop_urls:
  "map au_url (au_loop fl ph tbs bid its seen) = map (\<lambda>e. lesson_url (slide_key fl e)) its"
  by (induction its arbitrary: seen) (simp_all add: Let_def slide_key_def)

lemma opener_view:
  "block_view (opener_block fl xc ph tbs bt items) = group_view fl (bt, items)"
  by (simp add: block_view_def group_view_def opener_block_def opener_au_def
                slide_key_def[abs_def] Let_def comp_def)

lemma standard_view:
  "block_view (standard_block fl xc ph ln tbs bi bt items) = group_view fl (bt, items)"
  by (simp add: block_view_def group_view_def standard_block_def Let_def au_loop_urls
                slide_key_def[abs_def])

lemma block_loop_view:
  "map block_view (snd (block_loop fl xc ph ln tbs groups (bi, root))) =
     map block_view root @ map (group_view fl) (filter (\<lambda>g. fst g \<noteq> ''Additional Supports'') groups)"
proof (induction groups arbitrary: bi root)
  case Nil
  show ?case by simp
next
  case (Cons g groups)
  obtain bt items where g: "g = (bt, items)" by (cases g)
  show ?case
    unfolding g by (simp add: Cons opener_view standard_view)
qed

lemma build_view:
  assumes "parsed_slide_numbers fl (d_toc sheet) \<noteq> []"
  shows "\<exists>doc. fst (build_xml_for_sheet fl sheet xcode_arg) = Some doc \<and>
           map block_view (blocks doc) =
             map (group_view fl)
                 (filter (\<lambda>g. fst g \<noteq> ''Additional Supports'') (group_toc (d_toc sheet)))
             @ [(''Additional Supports'',
                 [lesson_url (Max (set (parsed_slide_numbers fl (d_toc sheet))) + 1)])]"
proof -
  have ne: "d_toc sheet \<noteq> []"
    using assms by (auto simp: parsed_slide_numbers_def)
  have sn: "snd (scan_toc fl (d_toc sheet) ([], [])) = parsed_slide_numbers fl (d_toc sheet)"
    by (simp add: scan_toc_numbers)
  have sv: "block_view (supports_block xc l bi m) = (''Additional Supports'', [lesson_url (m + 1)])"
    for xc l bi m
    by (simp add: block_view_def supports_block_def)
  obtain xc ph l tbs where doc:
    "fst (build_xml_for_sheet fl sheet xcode_arg) =
       Some \<lparr>course_id = site @ xc,
             blocks = snd (block_loop fl xc ph l tbs (group_toc (d_toc sheet)) (- 1, []))
               @ [supports_block xc l
                    (fst (block_loop fl xc ph l tbs (group_toc (d_toc sheet)) (- 1, [])) + 1)
                    (Max (set (parsed_slide_numbers fl (d_toc sheet))))]\<rparr>"
    using ne assms by (simp add: build_xml_for_sheet_def Let_def split_beta sn)
  show ?thesis
    unfolding doc by (simp add: block_loop_view sv)
qed

lemma mset_filter_split:
  "k \<notin> set ks \<Longrightarrow>
   mset (filter (\<lambda>x. f x = k) xs) + mset (filter (\<lambda>x. f x \<in> set ks) xs)
     = mset (filter (\<lambda>x. f x = k \<or> f x \<in> set ks) xs)"
  by (induction xs) auto

lemma mset_groups:
  "distinct ks \<Longrightarrow>
   mset (concat (map (\<lambda>k. map g (sort_key h (filter (\<lambda>x. f x = k) xs))) ks))
     = mset (map g (filter (\<lambda>x. f x \<in> set ks) xs))"
proof (induction ks)
  case Nil
  show ?case by simp
next
  case (Cons k ks)
  then have "mset (concat (map (\<lambda>k. map g (sort_key h (filter (\<lambda>x. f x = k) xs))) (k # ks)))
      = image_mset g (mset (filter (\<lambda>x. f x = k) xs) + mset (filter (\<lambda>x. f x \<in> set ks) xs))"
    by simp
  also have "\<dots> = image_mset g (mset (filter (\<lambda>x. f x = k \<or> f x \<in> set ks) xs))"
    using mset_filter_split[of k ks f xs, THEN arg_cong[where f = "image_mset g"]] Cons.prems
    by simp
  finally show ?case by simp
qed

lemma groups_kept:
  "filter (\<lambda>g. fst g \<noteq> a) (group_toc t) =
     map (\<lambda>k. (k, filter (\<lambda>x. entry_block x = k) t))
         (filter (\<lambda>k. k \<noteq> a) (first_seen (map entry_block t)))"
  by (simp add: group_toc_eq filter_map comp_def)

lemma kept_urls:
  "mset (concat (map snd (map (group_view fl) (filter (\<lambda>g. fst g \<noteq> a) (group_toc t)))))
     = mset (map (\<lambda>x. lesson_url (slide_key fl x)) (filter (\<lambda>x. entry_block x \<noteq> a) t))"
proof -
  let ?ks = "filter (\<lambda>k. k \<noteq> a) (first_seen (map entry_block t))"
  have d: "distinct ?ks" by simp
  have "concat (map snd (map (group_view fl) (filter (\<lambda>g. fst g \<noteq> a) (group_toc t))))
      = concat (map (\<lambda>k. map (\<lambda>x. lesson_url (slide_key fl x))
                             (sort_key (slide_key fl) (filter (\<lambda>x. entry_block x = k) t))) ?ks)"
    by (simp add: groups_kept group_view_def comp_def)
  also have "mset \<dots> = mset (map (\<lambda>x. lesson_url (slide_key fl x))
                                  (filter (\<lambda>x. entry_block x \<in> set ?ks) t))"
    by (rule mset_groups[OF d])
  also have "filter (\<lambda>x. entry_block x \<in> set ?ks) t = filter (\<lambda>x. entry_block x \<noteq> a) t"
    by (rule filter_cong) auto
  finally show ?thesis .
qed

lemma kept_titles:
  "map fst (map (group_view fl) (filter (\<lambda>g. fst g \<noteq> a) (group_toc t)))
     = filter (\<lambda>k. k \<noteq> a) (first_seen (map entry_block t))"
  by (simp add: groups_kept group_view_def comp_def)

lemma parsed_nonempty:
  "e \<in> set t \<Longrightarrow> to_int fl (toc_slide_number e) \<noteq> None \<Longrightarrow> parsed_slide_numbers fl t \<noteq> []"
  by (induction t) (auto simp: parsed_slide_numbers_def split: option.splits)

lemma title_is_view: "block_title b = fst (block_view b)"
  by (simp add: block_view_def)

lemma urls_is_view: "map au_url (block_aus b) = snd (block_view b)"
  by (simp add: block_view_def)

lemma length_filter_distinct:
  "distinct xs \<Longrightarrow> x \<in> set xs \<Longrightarrow> length (filter (\<lambda>y. y = x) xs) = 1"
  by (induction xs) (auto simp: filter_empty_conv)

lemma lesson_url_0: "lesson_url 0 = ''contents/lesson/0.html''"
  by code_simp

section \<open>Stage 2: the claims about the course structure\<close>

text \<open>
  C1: for every sheet whose toc contains an entry with an integer-parseable slide number (so
  the toc is non-empty), the builder emits a document whose last block is titled
  \<^verbatim>\<open>Additional Supports\<close> and is the only block with that title; the url of its single unit
  is \<^verbatim>\<open>contents/lesson/{n}.html\<close> for \<open>n\<close> one past the maximum of the parseable toc slide
  numbers; no block before it carries that title, and the units of the blocks before it
  are, one for one, the toc entries whose section does not classify as
  \<^verbatim>\<open>Additional Supports\<close>: the entries that do produce no block and no unit of their own.
\<close>

theorem additional_supports_last:
  assumes "e \<in> set (d_toc sheet)" and "to_int fl (toc_slide_number e) \<noteq> None"
  shows "\<exists>doc. fst (build_xml_for_sheet fl sheet xcode_arg) = Some doc \<and>
           blocks doc \<noteq> [] \<and>
           block_title (last (blocks doc)) = ''Additional Supports'' \<and>
           map au_url (block_aus (last (blocks doc)))
             = [lesson_url (Max (set (parsed_slide_numbers fl (d_toc sheet))) + 1)] \<and>
           length (filter (\<lambda>b. block_title b = ''Additional Supports'') (blocks doc)) = 1 \<and>
           (\<forall>b \<in> set (butlast (blocks doc)). block_title b \<noteq> ''Additional Supports'') \<and>
           mset (concat (map (\<lambda>b. map au_url (block_aus b)) (butlast (blocks doc))))
             = mset (map (\<lambda>x. lesson_url (slide_key fl x))
                         (filter (\<lambda>x. entry_block x \<noteq> ''Additional Supports'') (d_toc sheet)))"
proof -
  let ?AS = "''Additional Supports''"
  let ?G = "filter (\<lambda>g. fst g \<noteq> ?AS) (group_toc (d_toc sheet))"
  let ?last = "(?AS, [lesson_url (Max (set (parsed_slide_numbers fl (d_toc sheet))) + 1)])"
  from build_view[OF parsed_nonempty[OF assms], of xcode_arg]
  obtain doc where doc: "fst (build_xml_for_sheet fl sheet xcode_arg) = Some doc"
    and V: "map block_view (blocks doc) = map (group_view fl) ?G @ [?last]"
    by blast
  have ne: "blocks doc \<noteq> []" using V by auto
  have "block_view (last (blocks doc)) = last (map block_view (blocks doc))"
    using ne by (simp add: last_map)
  then have L: "block_view (last (blocks doc)) = ?last" unfolding V by simp
  have "map block_view (butlast (blocks doc)) = butlast (map block_view (blocks doc))"
    by (simp add: map_butlast)
  then have B: "map block_view (butlast (blocks doc)) = map (group_view fl) ?G"
    unfolding V by simp
  have BT: "map block_title (butlast (blocks doc)) = filter (\<lambda>k. k \<noteq> ?AS) (first_seen (map entry_block (d_toc sheet)))"
  proof -
    have "map block_title (butlast (blocks doc)) = map fst (map block_view (butlast (blocks doc)))"
      by (simp add: title_is_view)
    then show ?thesis unfolding B kept_titles .
  qed
  have none: "\<forall>b \<in> set (butlast (blocks doc)). block_title b \<noteq> ?AS"
  proof
    fix b assume "b \<in> set (butlast (blocks doc))"
    then have "block_title b \<in> set (map block_title (butlast (blocks doc)))" by simp
    then show "block_title b \<noteq> ?AS" unfolding BT by simp
  qed
  have split: "blocks doc = butlast (blocks doc) @ [last (blocks doc)]"
    using ne by simp
  have one: "length (filter (\<lambda>b. block_title b = ?AS) (blocks doc)) = 1"
  proof -
    have "filter (\<lambda>b. block_title b = ?AS) (butlast (blocks doc)) = []"
      using none by (simp add: filter_empty_conv)
    moreover have "block_title (last (blocks doc)) = ?AS"
      using L by (simp add: title_is_view)
    ultimately show ?thesis
      by (subst split) simp
  qed
  have urls: "mset (concat (map (\<lambda>b. map au_url (block_aus b)) (butlast (blocks doc))))
             = mset (map (\<lambda>x. lesson_url (slide_key fl x))
                         (filter (\<lambda>x. entry_block x \<noteq> ?AS) (d_toc sheet)))"
  proof -
    have "map (\<lambda>b. map au_url (block_aus b)) (butlast (blocks doc))
            = map snd (map block_view (butlast (blocks doc)))"
      by (simp add: urls_is_view)
    then show ?thesis unfolding B by (simp only: kept_urls)
  qed
  show ?thesis
    using doc ne L none one urls by (auto simp: block_view_def)
qed

theorem additional_supports_last_witness:
  "hd ex_toc \<in> set (d_toc (sheet_of ex_toc)) \<and>
   to_int no_float (toc_slide_number (hd ex_toc)) \<noteq> None \<and>
   map_option (map block_view \<circ> blocks) (fst (build_xml_for_sheet no_float (sheet_of ex_toc) None))
     = Some [(''Warm-up Review and Repetition'', [''contents/lesson/0.html'', ''contents/lesson/1.html'']),
             (''Lesson Opener'', [''contents/lesson/2.html'']),
             (''Additional Supports'', [''contents/lesson/4.html''])] \<and>
   (\<exists>doc. fst (build_xml_for_sheet no_float (sheet_of ex_toc) None) = Some doc \<and>
      block_title (last (blocks doc)) = ''Additional Supports'' \<and>
      map au_url (block_aus (last (blocks doc)))
        = [lesson_url (Max (set (parsed_slide_numbers no_float (d_toc (sheet_of ex_toc)))) + 1)])"
proof -
  have h1: "hd ex_toc \<in> set (d_toc (sheet_of ex_toc))" by code_simp
  have h2: "to_int no_float (toc_slide_number (hd ex_toc)) \<noteq> None" by code_simp
  have v: "map_option (map block_view \<circ> blocks) (fst (build_xml_for_sheet no_float (sheet_of ex_toc) None))
     = Some [(''Warm-up Review and Repetition'', [''contents/lesson/0.html'', ''contents/lesson/1.html'']),
             (''Lesson Opener'', [''contents/lesson/2.html'']),
             (''Additional Supports'', [''contents/lesson/4.html''])]"
    by code_simp
  from additional_supports_last[OF h1 h2, of None]
  obtain doc where d1: "fst (build_xml_for_sheet no_float (sheet_of ex_toc) None) = Some doc"
    and d2: "block_title (last (blocks doc)) = ''Additional Supports''"
    and d3: "map au_url (block_aus (last (blocks doc)))
        = [lesson_url (Max (set (parsed_slide_numbers no_float (d_toc (sheet_of ex_toc)))) + 1)]"
    by (elim exE conjE) (rule that; assumption)
  show ?thesis
    by (intro conjI exI[of _ doc] h1 h2 v d1 d2 d3)
qed

text \<open>
  C2 (as stated): when the toc has a parseable slide number and an entry that classifies as
  \<^verbatim>\<open>Lesson Opener\<close>, the opener block is the first block of the document wherever that
  section first occurs in the toc. On the code the opener block is appended where its group
  stands in first-seen order: with a warm-up entry before the intro entry, the warm-up block
  comes first.
\<close>

theorem lesson_opener_first_counterexample:
  "map_option (map block_title \<circ> blocks)
     (fst (build_xml_for_sheet no_float
        (sheet_of [entry_of (PyInt 1) ''Warm-up'' ''Review'', entry_of (PyInt 2) ''Intro'' ''Welcome''])
        None))
     = Some [''Warm-up Review and Repetition'', ''Lesson Opener'', ''Additional Supports'']"
  by code_simp

text \<open>
  C2 (amended): when the toc has a parseable slide number and an entry that classifies as
  \<^verbatim>\<open>Lesson Opener\<close>, the document has exactly one block titled \<^verbatim>\<open>Lesson Opener\<close>; the blocks
  stand in the first-seen order of the canonical titles of the toc, \<^verbatim>\<open>Additional Supports\<close>
  left out and appended last, so the opener block is the first block exactly when the first
  toc entry that does not classify as \<^verbatim>\<open>Additional Supports\<close> classifies as
  \<^verbatim>\<open>Lesson Opener\<close>.
\<close>

theorem lesson_opener_position:
  assumes "e \<in> set (d_toc sheet)" and "to_int fl (toc_slide_number e) \<noteq> None"
    and "op \<in> set (d_toc sheet)" and "entry_block op = ''Lesson Opener''"
  shows "\<exists>doc. fst (build_xml_for_sheet fl sheet xcode_arg) = Some doc \<and>
           map block_title (blocks doc)
             = filter (\<lambda>t. t \<noteq> ''Additional Supports'') (first_seen (map entry_block (d_toc sheet)))
               @ [''Additional Supports''] \<and>
           length (filter (\<lambda>b. block_title b = ''Lesson Opener'') (blocks doc)) = 1 \<and>
           (block_title (hd (blocks doc)) = ''Lesson Opener'' \<longleftrightarrow>
              hd (filter (\<lambda>t. t \<noteq> ''Additional Supports'') (map entry_block (d_toc sheet)))
                = ''Lesson Opener'')"
proof -
  let ?AS = "''Additional Supports''"
  let ?LO = "''Lesson Opener''"
  let ?ks = "map entry_block (d_toc sheet)"
  let ?G = "filter (\<lambda>g. fst g \<noteq> ?AS) (group_toc (d_toc sheet))"
  from build_view[OF parsed_nonempty[OF assms(1,2)], of xcode_arg]
  obtain doc where doc: "fst (build_xml_for_sheet fl sheet xcode_arg) = Some doc"
    and V: "map block_view (blocks doc) = map (group_view fl) ?G
              @ [(?AS, [lesson_url (Max (set (parsed_slide_numbers fl (d_toc sheet))) + 1)])]"
    by blast
  have "map block_title (blocks doc) = map fst (map block_view (blocks doc))"
    by (simp add: title_is_view)
  then have T: "map block_title (blocks doc) = filter (\<lambda>t. t \<noteq> ?AS) (first_seen ?ks) @ [?AS]"
    unfolding V by (simp only: map_append kept_titles) simp
  have neq: "?LO \<noteq> ?AS" by simp
  have inks: "?LO \<in> set ?ks" using assms(3,4) by force
  have mem: "?LO \<in> set (filter (\<lambda>t. t \<noteq> ?AS) (first_seen ?ks))"
    using inks neq by simp
  have "length (filter (\<lambda>b. block_title b = ?LO) (blocks doc))
          = length (filter (\<lambda>t. t = ?LO) (map block_title (blocks doc)))"
    by (simp add: filter_map comp_def)
  also have "\<dots> = length (filter (\<lambda>t. t = ?LO) (filter (\<lambda>t. t \<noteq> ?AS) (first_seen ?ks)))"
    unfolding T by simp
  also have "\<dots> = 1"
    by (rule length_filter_distinct[OF _ mem]) simp
  finally have one: "length (filter (\<lambda>b. block_title b = ?LO) (blocks doc)) = 1" .
  have ne: "blocks doc \<noteq> []" using V by auto
  have fne: "filter (\<lambda>t. t \<noteq> ?AS) (first_seen ?ks) \<noteq> []"
  proof
    assume a: "filter (\<lambda>t. t \<noteq> ?AS) (first_seen ?ks) = []"
    show False using mem unfolding a by simp
  qed
  have "block_title (hd (blocks doc)) = hd (map block_title (blocks doc))"
    using ne by (simp add: hd_map)
  also have "\<dots> = hd (filter (\<lambda>t. t \<noteq> ?AS) (first_seen ?ks))"
    unfolding T using fne by simp
  also have "\<dots> = hd (filter (\<lambda>t. t \<noteq> ?AS) ?ks)"
    by (simp only: first_seen_filter[symmetric] hd_first_seen)
  finally have H: "block_title (hd (blocks doc)) = hd (filter (\<lambda>t. t \<noteq> ?AS) ?ks)" .
  show ?thesis using doc T one H by simp
qed

theorem lesson_opener_position_witness:
  "hd ex_toc \<in> set (d_toc (sheet_of ex_toc)) \<and>
   to_int no_float (toc_slide_number (hd ex_toc)) \<noteq> None \<and>
   ex_toc ! 1 \<in> set (d_toc (sheet_of ex_toc)) \<and>
   entry_block (ex_toc ! 1) = ''Lesson Opener'' \<and>
   (\<exists>doc. fst (build_xml_for_sheet no_float (sheet_of ex_toc) None) = Some doc \<and>
      map block_title (blocks doc)
        = [''Warm-up Review and Repetition'', ''Lesson Opener'', ''Additional Supports''] \<and>
      block_title (hd (blocks doc)) \<noteq> ''Lesson Opener'')"
proof -
  have h1: "hd ex_toc \<in> set (d_toc (sheet_of ex_toc))" by code_simp
  have h2: "to_int no_float (toc_slide_number (hd ex_toc)) \<noteq> None" by code_simp
  have h3: "ex_toc ! 1 \<in> set (d_toc (sheet_of ex_toc))" by code_simp
  have h4: "entry_block (ex_toc ! 1) = ''Lesson Opener''" by code_simp
  have k: "filter (\<lambda>t. t \<noteq> ''Additional Supports'') (first_seen (map entry_block (d_toc (sheet_of ex_toc))))
              @ [''Additional Supports'']
            = [''Warm-up Review and Repetition'', ''Lesson Opener'', ''Additional Supports'']"
    by code_simp
  have f: "hd (filter (\<lambda>t. t \<noteq> ''Additional Supports'') (map entry_block (d_toc (sheet_of ex_toc))))
            \<noteq> ''Lesson Opener''"
    by code_simp
  from lesson_opener_position[OF h1 h2 h3 h4, of None]
  obtain doc where d1: "fst (build_xml_for_sheet no_float (sheet_of ex_toc) None) = Some doc"
    and d2: "map block_title (blocks doc)
             = filter (\<lambda>t. t \<noteq> ''Additional Supports'') (first_seen (map entry_block (d_toc (sheet_of ex_toc))))
               @ [''Additional Supports'']"
    and d3: "(block_title (hd (blocks doc)) = ''Lesson Opener'' \<longleftrightarrow>
              hd (filter (\<lambda>t. t \<noteq> ''Additional Supports'') (map entry_block (d_toc (sheet_of ex_toc))))
                = ''Lesson Opener'')"
    by blast
  have d2': "map block_title (blocks doc)
        = [''Warm-up Review and Repetition'', ''Lesson Opener'', ''Additional Supports'']"
    using d2 unfolding k .
  have d3': "block_title (hd (blocks doc)) \<noteq> ''Lesson Opener''"
    using d3 f by blast
  show ?thesis
    by (intro conjI exI[of _ doc] h1 h2 h3 h4 d1 d2' d3')
qed

text \<open>
  C7: within one document every block identifier and every unit identifier is unique. The
  code misses this for units: every unit of the opener block gets the same identifier, so two
  intro entries collide, and in a standard block the numbered suffix can meet the slug of
  another title (\<^verbatim>\<open>Sounds\<close>, \<^verbatim>\<open>Sounds\<close>, \<^verbatim>\<open>Sounds 2\<close> give \<^verbatim>\<open>sounds\<close>, \<^verbatim>\<open>sounds_2\<close>, \<^verbatim>\<open>sounds_2\<close>).
  The theorem evaluates the builder on both inputs.
\<close>

theorem unit_identifiers_collide:
  "map_option unit_ids
     (fst (build_xml_for_sheet no_float
        (sheet_of [entry_of (PyInt 1) ''Intro'' ''Welcome'', entry_of (PyInt 2) ''Intro'' ''Goals''])
        None))
     = Some [''http://benchmarkuniverse.com/X1/block/lesson_opener_lesson'',
             ''http://benchmarkuniverse.com/X1/block/lesson_opener_lesson'',
             ''http://benchmarkuniverse.com/X1/block0/lesson_2/additionalsupports_0''] \<and>
   map_option unit_ids
     (fst (build_xml_for_sheet no_float
        (sheet_of [entry_of (PyInt 1) ''Phonics'' ''Sounds'', entry_of (PyInt 2) ''Phonics'' ''Sounds'',
                   entry_of (PyInt 3) ''Phonics'' ''Sounds 2''])
        None))
     = Some [''http://benchmarkuniverse.com/X1/block0/lesson_2/sounds'',
             ''http://benchmarkuniverse.com/X1/block0/lesson_2/sounds_2'',
             ''http://benchmarkuniverse.com/X1/block0/lesson_2/sounds_2'',
             ''http://benchmarkuniverse.com/X1/block1/lesson_2/additionalsupports_0'']"
  by code_simp

text \<open>
  C10 (as stated): with a parseable slide number in the toc, every entry whose slide number
  fails to parse becomes a unit with url \<^verbatim>\<open>contents/lesson/0.html\<close> that sorts before every
  genuinely numbered entry of its block. On the code an unparseable entry under
  \<^verbatim>\<open>Additional Supports\<close> is dropped with its group, and an entry numbered \<open>-1\<close> sorts before
  the unparseable one: of the two unparseable entries below one unit remains, in second place.
\<close>

theorem unparseable_entry_counterexample:
  "map_option (map block_view \<circ> blocks)
     (fst (build_xml_for_sheet no_float
        (sheet_of [entry_of (PyInt 3) ''Phonics'' ''Three'',
                   entry_of (PyInt (- 1)) ''Phonics'' ''Before'',
                   entry_of (PyStr ''x'') ''Phonics'' ''Extra'',
                   entry_of (PyStr ''y'') ''Additional Supports'' ''More''])
        None))
     = Some [(''Phonics'', [''contents/lesson/-1.html'', ''contents/lesson/0.html'',
                            ''contents/lesson/3.html'']),
             (''Additional Supports'', [''contents/lesson/4.html''])]"
  by code_simp

text \<open>
  C10 (amended): with a parseable slide number in the toc, every entry whose slide number
  fails to parse and whose section does not classify as \<^verbatim>\<open>Additional Supports\<close> still becomes
  a unit of the block of its section, treated as slide number 0 (its url is
  \<^verbatim>\<open>contents/lesson/0.html\<close>), and it stands before every entry of its block whose slide number
  is positive; the block's units are its toc entries in ascending order of slide number.
\<close>

theorem unparseable_entry_unit:
  assumes "p \<in> set (d_toc sheet)" and "to_int fl (toc_slide_number p) \<noteq> None"
    and "e \<in> set (d_toc sheet)" and "to_int fl (toc_slide_number e) = None"
    and "entry_block e \<noteq> ''Additional Supports''"
  shows "\<exists>doc. fst (build_xml_for_sheet fl sheet xcode_arg) = Some doc \<and>
          (\<exists>b \<in> set (blocks doc). \<exists>s i.
              block_title b = entry_block e \<and>
              mset s = mset (filter (\<lambda>x. entry_block x = entry_block e) (d_toc sheet)) \<and>
              map au_url (block_aus b) = map (\<lambda>x. lesson_url (slide_key fl x)) s \<and>
              i < length s \<and> s ! i = e \<and>
              au_url (block_aus b ! i) = ''contents/lesson/0.html'' \<and>
              (\<forall>j < length s. 0 < slide_key fl (s ! j) \<longrightarrow> i < j))"
proof -
  let ?AS = "''Additional Supports''"
  let ?k = "entry_block e"
  let ?items = "filter (\<lambda>x. entry_block x = ?k) (d_toc sheet)"
  let ?s = "sort_key (slide_key fl) ?items"
  let ?G = "filter (\<lambda>g. fst g \<noteq> ?AS) (group_toc (d_toc sheet))"
  from build_view[OF parsed_nonempty[OF assms(1,2)], of xcode_arg]
  obtain doc where doc: "fst (build_xml_for_sheet fl sheet xcode_arg) = Some doc"
    and V: "map block_view (blocks doc) = map (group_view fl) ?G
              @ [(?AS, [lesson_url (Max (set (parsed_slide_numbers fl (d_toc sheet))) + 1)])]"
    by blast
  have "?k \<in> set (filter (\<lambda>k. k \<noteq> ?AS) (first_seen (map entry_block (d_toc sheet))))"
    using assms(3,5) by simp
  then have "(?k, ?items) \<in> set ?G"
    unfolding groups_kept by (simp add: image_iff)
  then have "group_view fl (?k, ?items) \<in> set (map block_view (blocks doc))"
    unfolding V by simp
  then obtain b where b: "b \<in> set (blocks doc)" and bv: "block_view b = group_view fl (?k, ?items)"
    by auto
  have t: "block_title b = ?k" using bv by (simp add: block_view_def group_view_def)
  have u: "map au_url (block_aus b) = map (\<lambda>x. lesson_url (slide_key fl x)) ?s"
    using bv by (simp add: block_view_def group_view_def)
  have m: "mset ?s = mset ?items" by simp
  have "e \<in> set ?s" using assms(3) by simp
  then obtain i where i: "i < length ?s" and si: "?s ! i = e"
    by (metis in_set_conv_nth)
  have k0: "slide_key fl e = 0" using assms(4) by (simp add: slide_key_def to_int0_def)
  have "au_url (block_aus b ! i) = map au_url (block_aus b) ! i"
    using i u by (metis length_map nth_map)
  also have "\<dots> = lesson_url (slide_key fl (?s ! i))"
    unfolding u using i by simp
  finally have url: "au_url (block_aus b ! i) = ''contents/lesson/0.html''"
    by (simp add: si k0 lesson_url_0)
  have srt: "sorted (map (slide_key fl) ?s)" by (rule sorted_sort_key)
  have before: "\<forall>j < length ?s. 0 < slide_key fl (?s ! j) \<longrightarrow> i < j"
  proof (intro allI impI)
    fix j assume j: "j < length ?s" and pos: "0 < slide_key fl (?s ! j)"
    show "i < j"
    proof (rule ccontr)
      assume "\<not> i < j"
      then have "j \<le> i" by simp
      then have "map (slide_key fl) ?s ! j \<le> map (slide_key fl) ?s ! i"
        using srt i by (simp add: sorted_iff_nth_mono del: sorted_sort_key)
      then show False using pos i j by (simp add: si k0)
    qed
  qed
  show ?thesis
    using doc b t m u i si url before by blast
qed

theorem unparseable_entry_unit_witness:
  "hd ex_toc \<in> set (d_toc (sheet_of ex_toc)) \<and>
   to_int no_float (toc_slide_number (hd ex_toc)) \<noteq> None \<and>
   ex_toc ! 2 \<in> set (d_toc (sheet_of ex_toc)) \<and>
   to_int no_float (toc_slide_number (ex_toc ! 2)) = None \<and>
   entry_block (ex_toc ! 2) = ''Warm-up Review and Repetition'' \<and>
   entry_block (ex_toc ! 2) \<noteq> ''Additional Supports'' \<and>
   (\<exists>doc. fst (build_xml_for_sheet no_float (sheet_of ex_toc) None) = Some doc \<and>
      (\<exists>b \<in> set (blocks doc). \<exists>s i.
          block_title b = ''Warm-up Review and Repetition'' \<and>
          map au_url (block_aus b) = map (\<lambda>x. lesson_url (slide_key no_float x)) s \<and>
          i < length s \<and> s ! i = ex_toc ! 2 \<and>
          au_url (block_aus b ! i) = ''contents/lesson/0.html'' \<and>
          (\<forall>j < length s. 0 < slide_key no_float (s ! j) \<longrightarrow> i < j)))"
proof -
  have h1: "hd ex_toc \<in> set (d_toc (sheet_of ex_toc))" by code_simp
  have h2: "to_int no_float (toc_slide_number (hd ex_toc)) \<noteq> None" by code_simp
  have h3: "ex_toc ! 2 \<in> set (d_toc (sheet_of ex_toc))" by code_simp
  have h4: "to_int no_float (toc_slide_number (ex_toc ! 2)) = None" by code_simp
  have h5: "entry_block (ex_toc ! 2) = ''Warm-up Review and Repetition''" by code_simp
  have h6: "entry_block (ex_toc ! 2) \<noteq> ''Additional Supports''" by code_simp
  from unparseable_entry_unit[OF h1 h2 h3 h4 h6, of None] h1 h2 h3 h4 h5 h6
  show ?thesis unfolding h5 by blast
qed

end
